theory Spec2Isabelle
  imports
    Main
    "HOL-Library.AList"
    "HOL-Library.Char_ord"
    "HOL-Library.List_Lexorder"
    "HOL-Library.Product_Lexorder"
    "HOL-Library.Sublist"
begin

section \<open>Common model of the Python run time\<close>

text \<open>
  The script \<^verbatim>\<open>correlate_files_per_issue.py\<close> is embedded function by function.
  A Python \<^verbatim>\<open>str\<close> is the \<^typ>\<open>string\<close> of its UTF-8 bytes, with the lexicographic order
  of \<^theory_text>\<open>List_Lexorder\<close> over the byte values (\<^theory_text>\<open>Char_ord\<close>): on UTF-8 this is the
  code point order that Python's \<^verbatim>\<open><\<close> and \<^verbatim>\<open>sorted\<close> use on \<^verbatim>\<open>str\<close>, and splitting and
  joining at ASCII separators is the same on the bytes. A \<^verbatim>\<open>dict\<close> is an association list in
  insertion order: \<^const>\<open>AList.update\<close> overwrites the value of a key that is present
  where it stands and appends a new key at the end, as a Python 3.7 dictionary does.
  A raised exception is the \<open>Inl\<close> branch of the result.
\<close>

datatype error = KeyError | IndexError | ValueError | OverflowError

definition bind :: "error + 'a \<Rightarrow> ('a \<Rightarrow> error + 'b) \<Rightarrow> error + 'b" where
  "bind r f = (case r of Inl e \<Rightarrow> Inl e | Inr x \<Rightarrow> f x)"

text \<open>\<^verbatim>\<open>d[k]\<close> on a dictionary: \<^verbatim>\<open>KeyError\<close> when the key is missing.\<close>

definition getitem :: "('k \<times> 'v) list \<Rightarrow> 'k \<Rightarrow> error + 'v" where
  "getitem d k = (case map_of d k of None \<Rightarrow> Inl KeyError | Some v \<Rightarrow> Inr v)"

text \<open>A \<^verbatim>\<open>for\<close> loop whose body may raise: the first exception ends the loop.\<close>

fun foldM :: "('a \<Rightarrow> 's \<Rightarrow> error + 's) \<Rightarrow> 'a list \<Rightarrow> 's \<Rightarrow> error + 's" where
  "foldM f [] s = Inr s"
| "foldM f (x # xs) s = bind (f x s) (foldM f xs)"

section \<open>Graph construction: \<^verbatim>\<open>correlate_files_with_each_other\<close>\<close>

text \<open>
  \<^verbatim>\<open>array.array("I")\<close> holds C unsigned ints; storing a larger value raises
  \<^verbatim>\<open>OverflowError\<close>. The bound is that of a 4-byte unsigned int.
\<close>

definition array_I_max :: nat where
  "array_I_max = 4294967295"

text \<open>
  The four mutable objects of the function: the dictionaries \<^verbatim>\<open>edges\<close> and
  \<^verbatim>\<open>weights\<close> (node id to array), the dictionary \<^verbatim>\<open>known_files_to_index\<close> (only ever
  looked up, so a map) and the list \<^verbatim>\<open>known_files\<close>.
\<close>

record graph_state =
  edges :: "(nat \<times> nat list) list"
  weights :: "(nat \<times> nat list) list"
  known_files_to_index :: "string \<rightharpoonup> nat"
  known_files :: "string list"

definition init_state :: graph_state where
  "init_state = \<lparr>edges = [], weights = [], known_files_to_index = Map.empty, known_files = []\<rparr>"

text \<open>
  Lines 190-192 and 205-207:
  \<^verbatim>\<open>if f not in known_files_to_index: known_files_to_index[f] = len(known_files); known_files.append(f)\<close>
\<close>

definition register_file :: "string \<Rightarrow> graph_state \<Rightarrow> graph_state" where
  "register_file f s =
     (if known_files_to_index s f = None
      then s\<lparr>known_files_to_index := (known_files_to_index s)(f \<mapsto> length (known_files s)),
             known_files := known_files s @ [f]\<rparr>
      else s)"

text \<open>
  Lines 198-203: the transient \<^verbatim>\<open>Counter\<close> and the position index of the targets
  node \<open>fidx\<close> already has. \<^verbatim>\<open>zip\<close> stops at the shorter array; a later duplicate
  overwrites an earlier one.
\<close>

definition make_edgecounter :: "nat list \<Rightarrow> nat list \<Rightarrow> (nat \<rightharpoonup> nat)" where
  "make_edgecounter v w = fold (\<lambda>(target, weight) c. c(target \<mapsto> weight)) (zip v w) Map.empty"

definition make_edgeindex :: "nat list \<Rightarrow> (nat \<rightharpoonup> nat)" where
  "make_edgeindex v = fold (\<lambda>(i, target) m. m(target \<mapsto> i)) (enumerate 0 v) Map.empty"

text \<open>
  Lines 204-214, the body of \<^verbatim>\<open>for g in files\<close>. The loop state is the graph state
  and the counter; \<open>edgeindex\<close> is not updated inside the loop (as in the source), so
  a target that was appended in this very loop and comes again is a \<^verbatim>\<open>KeyError\<close>.
\<close>

definition target_step ::
  "nat \<Rightarrow> (nat \<rightharpoonup> nat) \<Rightarrow> string \<Rightarrow> graph_state \<times> (nat \<rightharpoonup> nat)
     \<Rightarrow> error + (graph_state \<times> (nat \<rightharpoonup> nat))" where
  "target_step fidx edgeindex g = (\<lambda>(s0, edgecounter).
     let s = register_file g s0 in
     case known_files_to_index s g of
       None \<Rightarrow> Inl KeyError
     | Some gidx \<Rightarrow>
         bind
           (if edgecounter gidx = None then
              bind (getitem (edges s) fidx) (\<lambda>v.
                if gidx > array_I_max then Inl OverflowError
                else bind (getitem (weights s) fidx) (\<lambda>w.
                  Inr (s\<lparr>edges := AList.update fidx (v @ [gidx]) (edges s),
                         weights := AList.update fidx (w @ [1]) (weights s)\<rparr>)))
            else
              bind (getitem (weights s) fidx) (\<lambda>w.
                case edgeindex gidx of
                  None \<Rightarrow> Inl KeyError
                | Some i \<Rightarrow>
                    if \<not> i < length w then Inl IndexError
                    else if w ! i + 1 > array_I_max then Inl OverflowError
                    else Inr (s\<lparr>weights := AList.update fidx (w[i := w ! i + 1]) (weights s)\<rparr>)))
           (\<lambda>s'. Inr (s', edgecounter(gidx \<mapsto>
                    (case edgecounter gidx of None \<Rightarrow> 0 | Some c \<Rightarrow> c) + 1))))"

text \<open>Lines 189-214, the body of \<^verbatim>\<open>for f in files\<close>.\<close>

definition file_step :: "string list \<Rightarrow> string \<Rightarrow> graph_state \<Rightarrow> error + graph_state" where
  "file_step files f s0 =
     (let s1 = register_file f s0 in
      case known_files_to_index s1 f of
        None \<Rightarrow> Inl KeyError
      | Some fidx \<Rightarrow>
          let s2 = (if map_of (edges s1) fidx = None
                    then s1\<lparr>edges := AList.update fidx [] (edges s1),
                            weights := AList.update fidx [] (weights s1)\<rparr>
                    else s1) in
          bind (getitem (edges s2) fidx) (\<lambda>v.
          bind (getitem (weights s2) fidx) (\<lambda>w.
          bind (foldM (target_step fidx (make_edgeindex v)) files (s2, make_edgecounter v w))
               (\<lambda>(s3, edgecounter). Inr s3))))"

text \<open>
  Lines 183-214, the body of \<^verbatim>\<open>for i, files in enumerate(aggregated.values())\<close>; the
  counter \<open>i\<close> only feeds the debug log.
\<close>

definition issue_step :: "string list \<Rightarrow> graph_state \<Rightarrow> error + graph_state" where
  "issue_step files s =
     (if length files > 300 then Inr s else foldM (file_step files) files s)"

definition accumulate :: "string list list \<Rightarrow> error + graph_state" where
  "accumulate values = foldM issue_step values init_state"

text \<open>
  Lines 215-219, the body of \<^verbatim>\<open>for k in edges\<close>. The key function of the second
  \<^verbatim>\<open>sorted\<close> is \<^verbatim>\<open>lambda x: edges[x]\<close>: it is called on every weight \<open>x\<close> of the node and
  looks \<open>x\<close> up as a node id in \<^verbatim>\<open>edges\<close>, where \<^verbatim>\<open>edges[k]\<close> is already the sorted
  array. The keys are arrays, compared lexicographically; \<^verbatim>\<open>sorted\<close> is stable, as
  \<^const>\<open>sort_key\<close> is.
\<close>

definition finalize_node ::
  "nat \<Rightarrow> (nat \<times> nat list) list \<times> (nat \<times> nat list) list
     \<Rightarrow> error + ((nat \<times> nat list) list \<times> (nat \<times> nat list) list)" where
  "finalize_node k = (\<lambda>(es, ws).
     bind (getitem es k) (\<lambda>v.
     bind (getitem ws k) (\<lambda>w.
       let es' = AList.update k (sort v) es in
       if list_all (\<lambda>x. map_of es' x \<noteq> None) w
       then Inr (es', AList.update k (sort_key (\<lambda>x. the (map_of es' x)) w) ws)
       else Inl KeyError)))"

definition finalize ::
  "graph_state \<Rightarrow> error + (string list \<times> (nat \<times> nat list) list \<times> (nat \<times> nat list) list)" where
  "finalize s =
     bind (foldM finalize_node (map fst (edges s)) (edges s, weights s))
       (\<lambda>(es, ws). Inr (known_files s, sort es, sort ws))"

text \<open>
  The argument is the dictionary \<^verbatim>\<open>aggregated\<close> in insertion order; only its values
  are read.
\<close>

definition correlate_files_with_each_other ::
  "(string \<times> string list) list
     \<Rightarrow> error + (string list \<times> (nat \<times> nat list) list \<times> (nat \<times> nat list) list)" where
  "correlate_files_with_each_other aggregated =
     bind (accumulate (map snd aggregated)) finalize"

section \<open>Line parsing: \<^verbatim>\<open>process_taskline\<close>\<close>

text \<open>
  A change record is the tuple \<^verbatim>\<open>(issue_id, isodate, files, sizes)\<close> that
  \<^verbatim>\<open>process_taskline\<close> returns. Sizes are Python ints.
\<close>

type_synonym change = "string \<times> string \<times> string list \<times> int list"

text \<open>
  \<^verbatim>\<open>s.split(sep, maxsplit)\<close> for a non-empty separator: scan from the left, cut at every
  occurrence of \<open>sep\<close> that does not overlap the previous one, at most \<open>maxsplit\<close> times.
  \<open>cur\<close> is the piece being read.
\<close>

fun split_from :: "string \<Rightarrow> nat \<Rightarrow> string \<Rightarrow> string \<Rightarrow> string list" where
  "split_from sep 0 cur s = [cur @ s]"
| "split_from sep (Suc n) cur [] = [cur]"
| "split_from sep (Suc n) cur (c # s) =
     (if prefix sep (c # s) then cur # split_from sep n [] (drop (length sep) (c # s))
      else split_from sep (Suc n) (cur @ [c]) s)"

definition str_split_max :: "string \<Rightarrow> nat \<Rightarrow> string \<Rightarrow> string list" where
  "str_split_max sep maxsplit s = split_from sep maxsplit [] s"

text \<open>
  \<^verbatim>\<open>s.split(sep)\<close> has no limit; a string of length \<open>n\<close> holds at most \<open>n\<close> separators, so
  the limit \<open>length s\<close> is none.
\<close>

definition str_split :: "string \<Rightarrow> string \<Rightarrow> string list" where
  "str_split sep s = split_from sep (length s) [] s"

text \<open>\<^verbatim>\<open>sep.join(xs)\<close>.\<close>

fun str_join :: "string \<Rightarrow> string list \<Rightarrow> string" where
  "str_join sep [] = []"
| "str_join sep [x] = x"
| "str_join sep (x # y # ys) = x @ sep @ str_join sep (y # ys)"

text \<open>
  \<^verbatim>\<open>int(s)\<close> on a \<^verbatim>\<open>str\<close>. When the string is ASCII the interpreter parses it as it
  stands: it skips the white space of the C locale (tab, line feed, vertical tab, form
  feed, carriage return, space; not the separators 0x1C to 0x1F), reads one optional
  sign, then needs a digit, then digits with single underscores between them, then
  white space up to the end. More than 4300 digits are refused (the default
  \<^verbatim>\<open>sys.int_info.default_max_str_digits\<close>). \<open>None\<close> is the \<^verbatim>\<open>ValueError\<close>.
\<close>

definition is_space :: "char \<Rightarrow> bool" where
  "is_space c = (c \<in> set [CHR 0x09, CHR 0x0A, CHR 0x0B, CHR 0x0C, CHR 0x0D, CHR 0x20])"

definition is_digit :: "char \<Rightarrow> bool" where
  "is_digit c = (CHR ''0'' \<le> c \<and> c \<le> CHR ''9'')"

definition digit_val :: "char \<Rightarrow> nat" where
  "digit_val c = of_char c - 48"

definition int_max_str_digits :: nat where
  "int_max_str_digits = 4300"

text \<open>The scan returns the value read and the number of digits read.\<close>

fun scan_digits :: "nat \<Rightarrow> nat \<Rightarrow> char \<Rightarrow> string \<Rightarrow> (nat \<times> nat) option" where
  "scan_digits acc digits prev [] = (if prev = CHR ''_'' then None else Some (acc, digits))"
| "scan_digits acc digits prev (c # cs) =
     (if c = CHR ''_'' then (if prev = CHR ''_'' then None else scan_digits acc digits c cs)
      else if is_digit c then scan_digits (10 * acc + digit_val c) (digits + 1) c cs
      else None)"

definition ascii_int :: "string \<Rightarrow> int option" where
  "ascii_int s =
     (let t = dropWhile is_space s;
          (sign, u) = (case t of
                         [] \<Rightarrow> (1, t)
                       | c # r \<Rightarrow> if c = CHR ''+'' then (1, r)
                                 else if c = CHR ''-'' then (- 1, r) else (1, t));
          body = rev (dropWhile is_space (rev u))
      in case body of
           [] \<Rightarrow> None
         | c # cs \<Rightarrow>
             if is_digit c
             then (case scan_digits (digit_val c) 1 c cs of
                     None \<Rightarrow> None
                   | Some (n, digits) \<Rightarrow>
                       if digits > int_max_str_digits then None else Some (sign * int n))
             else None)"

text \<open>
  When the string holds a character outside ASCII the interpreter first rewrites it
  with the tables of its Unicode database (every Unicode space becomes a space, every
  Unicode decimal digit its ASCII digit). Those tables belong to the interpreter, change
  with its Unicode version and are no part of the repository: the conversion of such a
  string is the parameter \<open>unicode_int\<close> of the model, and nothing is assumed of it.
\<close>

definition is_ascii :: "string \<Rightarrow> bool" where
  "is_ascii s = list_all (\<lambda>c. of_char c < (128::nat)) s"

definition py_int :: "(string \<Rightarrow> int option) \<Rightarrow> string \<Rightarrow> int option" where
  "py_int unicode_int s = (if is_ascii s then ascii_int s else unicode_int s)"

text \<open>
  Lines 78 and 82: the size of an entry is \<^verbatim>\<open>int(f.split(",")[-1])\<close>, its file name is
  \<^verbatim>\<open>",".join(f.split(",")[:-1])\<close>. \<^verbatim>\<open>split\<close> never returns an empty list.
\<close>

definition entry_size :: "(string \<Rightarrow> int option) \<Rightarrow> string \<Rightarrow> int option" where
  "entry_size unicode_int f = py_int unicode_int (last (str_split '','' f))"

definition entry_name :: "string \<Rightarrow> string" where
  "entry_name f = str_join '','' (butlast (str_split '','' f))"

text \<open>
  Lines 71-88. Unpacking a \<^verbatim>\<open>split\<close> result of the wrong length raises \<^verbatim>\<open>ValueError\<close>.
  The second component of the result is the log: the lines for which
  \<^verbatim>\<open>logging.warn\<close> was called. Lines 83-87 compute \<^verbatim>\<open>shorttitle\<close> from the title with
  operations that cannot raise and do not use it; they are left out.
\<close>

definition process_taskline ::
  "(string \<Rightarrow> int option) \<Rightarrow> string \<Rightarrow> error + (change \<times> string list)" where
  "process_taskline unicode_int taskline =
     (case str_split_max '' '' 3 taskline of
        [commit_id, issue_id, isodate, rest] \<Rightarrow>
          (case str_split_max '': '' 1 rest of
             [files_string, title] \<Rightarrow>
               if files_string = '':'' then Inr ((issue_id, isodate, [], []), [])
               else
                 let files = tl (str_split '':'' files_string) in
                 (case those (map (entry_size unicode_int) files) of
                    Some sizes \<Rightarrow> Inr ((issue_id, isodate, map entry_name files, sizes), [])
                  | None \<Rightarrow>
                      Inr ((issue_id, isodate, map entry_name files, map (\<lambda>i. 0) files),
                           [taskline]))
           | _ \<Rightarrow> Inl ValueError)
      | _ \<Rightarrow> Inl ValueError)"

text \<open>
  On an ASCII line the parameter is never called (\<open>process_taskline_ascii\<close> below).
  The examples of this theory are ASCII lines; they are stated with the following value
  of the parameter, and hold with every other.
\<close>

definition ascii_only :: "string \<Rightarrow> int option" where
  "ascii_only s = None"

text \<open>
  The writer of the lines, \<^verbatim>\<open>format_todo_entry\<close> in
  \<^verbatim>\<open>retrieve_commits_and_issues.py\<close> (lines 206-221); \<open>sizes\<close> are the byte strings
  \<^verbatim>\<open>str(i).encode()\<close>. With files and sizes the manifest is
  \<^verbatim>\<open>":" + ":".join(",".join(i) for i in zip(files, sizes)) + ":"\<close>, with files alone it is
  \<^verbatim>\<open>":" + ":".join(files) + ":"\<close>, and without files there is none. The message is written
  with \<^verbatim>\<open>---\<close> for every line break.
\<close>

definition replace_newlines :: "string \<Rightarrow> string" where
  "replace_newlines message = concat (map (\<lambda>c. if c = CHR 0x0A then ''---'' else [c]) message)"

definition format_todo_entry ::
  "string \<Rightarrow> string \<Rightarrow> string \<Rightarrow> string \<Rightarrow> string list option \<Rightarrow> string list option
     \<Rightarrow> string" where
  "format_todo_entry commit_id issue isodate message files sizes =
     (case files of
        Some fs \<Rightarrow>
          (case sizes of
             Some ss \<Rightarrow>
               str_join '' ''
                 [commit_id, issue, isodate,
                  '':'' @ str_join '':'' (map (\<lambda>(f, s). str_join '','' [f, s]) (zip fs ss)) @ '':'',
                  replace_newlines message]
           | None \<Rightarrow>
               str_join '' ''
                 [commit_id, issue, isodate, '':'' @ str_join '':'' fs @ '':'',
                  replace_newlines message])
      | None \<Rightarrow> str_join '' '' [commit_id, issue, isodate, replace_newlines message])"

text \<open>
  The grammar of a manifest, for stating what the parser returns. A manifest is a run of
  entries, each after a colon. An entry with a comma is a name, a comma and a last
  component without comma; an entry without comma is its own last component and has the
  empty name. An entry holds no colon and does not begin with a space (a colon and a
  space end the manifest).
\<close>

type_synonym piece = "string option \<times> string"

definition piece_text :: "piece \<Rightarrow> string" where
  "piece_text p = (case fst p of None \<Rightarrow> snd p | Some n \<Rightarrow> n @ '','' @ snd p)"

definition piece_name :: "piece \<Rightarrow> string" where
  "piece_name p = (case fst p of None \<Rightarrow> [] | Some n \<Rightarrow> n)"

definition manifest_text :: "piece list \<Rightarrow> string" where
  "manifest_text pieces = concat (map (\<lambda>p. '':'' @ piece_text p) pieces)"

definition well_shaped :: "piece \<Rightarrow> bool" where
  "well_shaped p \<longleftrightarrow>
     CHR '','' \<notin> set (snd p) \<and> CHR '':'' \<notin> set (piece_text p) \<and> \<not> prefix '' '' (piece_text p)"

section \<open>Issue aggregation: \<^verbatim>\<open>aggregate_files_per_issue\<close> and \<^verbatim>\<open>sum_filesizes_per_issue\<close>\<close>

text \<open>
  Lines 104-105 and 133-134:
  \<^verbatim>\<open>if issue not in issuedatelatest or issuedatelatest[issue] < date: issuedatelatest[issue] = date\<close>
\<close>

definition latest_step :: "string \<Rightarrow> string \<Rightarrow> (string \<times> string) list \<Rightarrow> (string \<times> string) list" where
  "latest_step issue date issuedatelatest =
     (case map_of issuedatelatest issue of
        None \<Rightarrow> AList.update issue date issuedatelatest
      | Some d \<Rightarrow> if d < date then AList.update issue date issuedatelatest else issuedatelatest)"

text \<open>
  Lines 135-138: \<^verbatim>\<open>mapped[issue]\<close> is created as the empty set when the issue is new (the
  key then goes to the end of the dictionary), and every file of the record is added to
  it.
\<close>

definition add_files ::
  "string \<Rightarrow> string list \<Rightarrow> (string \<times> string set) list \<Rightarrow> (string \<times> string set) list" where
  "add_files issue files mapped =
     AList.update issue
       (fold insert files (case map_of mapped issue of None \<Rightarrow> {} | Some fs \<Rightarrow> fs)) mapped"

text \<open>
  Lines 106-109: \<^verbatim>\<open>mapped[issue]\<close> starts at 0 and every element of \<^verbatim>\<open>sizes\<close> is added
  (the loop runs over \<^verbatim>\<open>sizes\<close> alone, not over the files).
\<close>

definition add_sizes ::
  "string \<Rightarrow> int list \<Rightarrow> (string \<times> int) list \<Rightarrow> (string \<times> int) list" where
  "add_sizes issue sizes mapped =
     AList.update issue
       (fold (\<lambda>s acc. acc + s) sizes (case map_of mapped issue of None \<Rightarrow> 0 | Some n \<Rightarrow> n)) mapped"

text \<open>
  Lines 111-114 and 144-147, the body of \<^verbatim>\<open>for key, value in mapped.items()\<close>:
  \<^verbatim>\<open>date = issuedatelatest[key]; withdate[date + ":" + key] = value\<close>.
\<close>

definition add_date ::
  "(string \<times> string) list \<Rightarrow> string \<times> 'v \<Rightarrow> (string \<times> 'v) list \<Rightarrow> error + (string \<times> 'v) list" where
  "add_date issuedatelatest = (\<lambda>(key, value) withdate.
     bind (getitem issuedatelatest key) (\<lambda>date.
       Inr (AList.update (date @ '':'' @ key) value withdate)))"

text \<open>
  The first loop of both functions (lines 99-109 and 128-138) reads one record and
  updates the two dictionaries, each on its own; these are its two halves.
\<close>

definition track_latest :: "change \<Rightarrow> (string \<times> string) list \<Rightarrow> (string \<times> string) list" where
  "track_latest = (\<lambda>(issue, date, files, sizes). latest_step issue date)"

definition collect_files :: "change \<Rightarrow> (string \<times> string set) list \<Rightarrow> (string \<times> string set) list" where
  "collect_files = (\<lambda>(issue, date, files, sizes). add_files issue files)"

definition collect_sizes :: "change \<Rightarrow> (string \<times> int) list \<Rightarrow> (string \<times> int) list" where
  "collect_sizes = (\<lambda>(issue, date, files, sizes). add_sizes issue sizes)"

text \<open>
  Lines 126-148. Lines 139-142 replace every set by the sorted tuple of its elements
  (the keys of a dictionary are distinct, so assigning \<^verbatim>\<open>mapped[key]\<close> for each item in
  turn maps over the items).
\<close>

definition aggregate_files_per_issue :: "change list \<Rightarrow> error + (string \<times> string list) list" where
  "aggregate_files_per_issue changes =
     (let issuedatelatest = fold track_latest changes [];
          mapped = fold collect_files changes [];
          mapped' = map (\<lambda>(key, value). (key, sorted_list_of_set value)) mapped
      in foldM (add_date issuedatelatest) mapped' [])"

text \<open>
  Lines 97-115. \<^verbatim>\<open>sorted(withdate.items())\<close> sorts the \<^verbatim>\<open>(key, value)\<close> tuples, which
  Python compares lexicographically, as \<^theory_text>\<open>Product_Lexorder\<close> does.
\<close>

definition sum_filesizes_per_issue :: "change list \<Rightarrow> error + (string \<times> int) list" where
  "sum_filesizes_per_issue changes =
     (let issuedatelatest = fold track_latest changes [];
          mapped = fold collect_sizes changes []
      in bind (foldM (add_date issuedatelatest) mapped []) (\<lambda>withdate. Inr (sort withdate)))"

text \<open>Line 161: \<^verbatim>\<open>[(key, len(v)) for key, v in aggregated.items()]\<close>.\<close>

definition count_files_per_issue :: "(string \<times> string list) list \<Rightarrow> (string \<times> nat) list" where
  "count_files_per_issue aggregated = map (\<lambda>(key, v). (key, length v)) aggregated"

section \<open>What the aggregation is meant to compute\<close>

text \<open>
  The records of one issue, the dates, files and sizes they contribute, and the
  composite key \<open>latest_date + ":" + issue_id\<close>, written after the data model.
\<close>

definition issues_of :: "change list \<Rightarrow> string set" where
  "issues_of changes = set (map fst changes)"

definition dates_of :: "change list \<Rightarrow> string \<Rightarrow> string list" where
  "dates_of changes issue = map (\<lambda>(i, d, fs, ss). d) (filter (\<lambda>c. fst c = issue) changes)"

definition files_of :: "change list \<Rightarrow> string \<Rightarrow> string set" where
  "files_of changes issue =
     set (concat (map (\<lambda>(i, d, fs, ss). fs) (filter (\<lambda>c. fst c = issue) changes)))"

definition sizes_of :: "change list \<Rightarrow> string \<Rightarrow> int list" where
  "sizes_of changes issue =
     concat (map (\<lambda>(i, d, fs, ss). ss) (filter (\<lambda>c. fst c = issue) changes))"

definition latest_date :: "change list \<Rightarrow> string \<Rightarrow> string" where
  "latest_date changes issue = Max (set (dates_of changes issue))"

definition composite_key :: "change list \<Rightarrow> string \<Rightarrow> string" where
  "composite_key changes issue = latest_date changes issue @ '':'' @ issue"

text \<open>The dates of the data model are ISO dates; what matters here is that they hold no colon.\<close>

definition colon_free_dates :: "change list \<Rightarrow> bool" where
  "colon_free_dates changes = list_all (\<lambda>(i, d, fs, ss). CHR '':'' \<notin> set d) changes"

section \<open>Reading the result of graph construction\<close>

text \<open>
  The number of retained issues (at most 300 files) whose files contain both \<open>f\<close> and
  \<open>g\<close>: the co-occurrence count the data model gives as the meaning of a weight.
\<close>

definition cooccurrence :: "(string \<times> string list) list \<Rightarrow> string \<Rightarrow> string \<Rightarrow> nat" where
  "cooccurrence aggregated f g =
     length (filter (\<lambda>files. \<not> length files > 300 \<and> f \<in> set files \<and> g \<in> set files)
                    (map snd aggregated))"

text \<open>
  The weight the returned pair of tables gives to the edge from node \<open>i\<close> to node
  \<open>j\<close>: the entry of \<open>i\<close>'s weight sequence at the position of \<open>j\<close> in \<open>i\<close>'s
  neighbour sequence.
\<close>

definition edge_weight ::
  "(nat \<times> nat list) list \<Rightarrow> (nat \<times> nat list) list \<Rightarrow> nat \<Rightarrow> nat \<Rightarrow> nat option" where
  "edge_weight es ws i j =
     (case map_of es i of
        None \<Rightarrow> None
      | Some ns \<Rightarrow> (case map_of ws i of None \<Rightarrow> None | Some wts \<Rightarrow> map_of (zip ns wts) j))"

text \<open>
  Scenario C, the records of the doctests of \<^verbatim>\<open>aggregate_files_per_issue\<close> and
  \<^verbatim>\<open>sum_filesizes_per_issue\<close>.
\<close>

definition scenario_C :: "change list" where
  "scenario_C =
     [(''FOO-1111'', ''2018-03-12'', [''A'', ''B''], [1, 15]),
      (''FOO-1111'', ''2018-03-10'', [''A'', ''C''], [2, 5]),
      (''FOO-1112'', ''2018-03-11'', [''A'', ''D''], [2, 8])]"

text \<open>The file lists of the retained issues, in the order of the dictionary.\<close>

definition retained :: "(string \<times> string list) list \<Rightarrow> string list list" where
  "retained aggregated = filter (\<lambda>files. \<not> length files > 300) (map snd aggregated)"

text \<open>
  First-seen order: the elements of a sequence in the order of their first
  occurrences.
\<close>

definition add_new :: "'a \<Rightarrow> 'a list \<Rightarrow> 'a list" where
  "add_new x seen = (if x \<in> set seen then seen else seen @ [x])"

definition first_seen :: "'a list \<Rightarrow> 'a list" where
  "first_seen xs = fold add_new xs []"

text \<open>
  The file index is consistent when \<^verbatim>\<open>known_files_to_index\<close> maps exactly the names
  in \<^verbatim>\<open>known_files\<close>, each to its position.
\<close>

definition index_ok :: "graph_state \<Rightarrow> bool" where
  "index_ok s \<longleftrightarrow>
     (\<forall>f i. known_files_to_index s f = Some i \<longleftrightarrow>
            i < length (known_files s) \<and> known_files s ! i = f)"

text \<open>
  The invariants of the accumulation loop: the two dictionaries have the same, distinct
  keys; every file of \<open>F\<close> is registered and has a node; every edge joins two
  registered files that occur together in one of the file lists \<open>R\<close>.
\<close>

definition keys_ok :: "graph_state \<Rightarrow> bool" where
  "keys_ok s \<longleftrightarrow> distinct (map fst (edges s)) \<and> map fst (weights s) = map fst (edges s)"

definition nodes_ok :: "string set \<Rightarrow> graph_state \<Rightarrow> bool" where
  "nodes_ok F s \<longleftrightarrow>
     F \<subseteq> set (known_files s) \<and>
     (\<forall>i < length (known_files s). known_files s ! i \<in> F \<longrightarrow> i \<in> fst ` set (edges s))"

definition edges_ok :: "string list set \<Rightarrow> graph_state \<Rightarrow> bool" where
  "edges_ok R s \<longleftrightarrow>
     (\<forall>(i, ns) \<in> set (edges s).
        i < length (known_files s) \<and>
        (\<forall>j \<in> set ns. j < length (known_files s) \<and>
           (\<exists>fs \<in> R. known_files s ! i \<in> set fs \<and> known_files s ! j \<in> set fs)))"

definition graph_inv :: "string list set \<Rightarrow> string set \<Rightarrow> graph_state \<Rightarrow> bool" where
  "graph_inv R F s \<longleftrightarrow> index_ok s \<and> keys_ok s \<and> nodes_ok F s \<and> edges_ok R s"

section \<open>Evaluating graph construction\<close>

lemmas graph_defs =
  correlate_files_with_each_other_def accumulate_def finalize_def init_state_def bind_def
  issue_step_def file_step_def target_step_def register_file_def getitem_def
  make_edgecounter_def make_edgeindex_def finalize_node_def array_I_max_def Let_def
  enumerate_eq_zip

text \<open>
  Claim C3 (Scenario A, the doctest of the function): on the aggregated input
  \<open>{"TEST-1111": ("A","B","C"), "TEST-1112": ("A","D")}\<close> the function returns the node
  list \<open>(A,B,C,D)\<close>, the neighbours \<open>(0,1,2,3)\<close>, \<open>(0,1,2)\<close>, \<open>(0,1,2)\<close>, \<open>(0,3)\<close> of the nodes
  0 to 3 and their weights \<open>(2,1,1,1)\<close>, \<open>(1,1,1)\<close>, \<open>(1,1,1)\<close>, \<open>(1,1)\<close>.
\<close>

theorem scenario_A:
  "correlate_files_with_each_other
     [(''TEST-1111'', [''A'', ''B'', ''C'']), (''TEST-1112'', [''A'', ''D''])] =
   Inr ([''A'', ''B'', ''C'', ''D''],
        [(0, [0, 1, 2, 3]), (1, [0, 1, 2]), (2, [0, 1, 2]), (3, [0, 3])],
        [(0, [2, 1, 1, 1]), (1, [1, 1, 1]), (2, [1, 1, 1]), (3, [1, 1])])"
  by (simp add: graph_defs)

text \<open>
  Claim C1 (weights positionally aligned with the ascending neighbours) does not hold
  of the code. On \<open>{"I1": ("A","B"), "I2": ("A","C")}\<close> node 0 (file A) is returned with
  neighbours \<open>(0,1,2)\<close> and weights \<open>(1,1,2)\<close>, while A occurs with itself in two retained
  issues and with B and with C in one each: the aligned weights are \<open>(2,1,1)\<close>. The
  final \<^verbatim>\<open>sorted(w, key=lambda x: edges[x])\<close> orders the weights of node 0 by the arrays
  \<^verbatim>\<open>edges[2] = (0,2)\<close> and \<^verbatim>\<open>edges[1] = (0,1)\<close>, so both weights 1 move before the weight 2.
  Before that last loop the tables are aligned: node 0 has the weights \<open>(2,1,1)\<close>.
\<close>

theorem alignment_broken_by_weight_sort:
  "correlate_files_with_each_other [(''I1'', [''A'', ''B'']), (''I2'', [''A'', ''C''])] =
     Inr ([''A'', ''B'', ''C''],
          [(0, [0, 1, 2]), (1, [0, 1]), (2, [0, 2])],
          [(0, [1, 1, 2]), (1, [1, 1]), (2, [1, 1])])
   \<and> cooccurrence [(''I1'', [''A'', ''B'']), (''I2'', [''A'', ''C''])] ''A'' ''A'' = 2
   \<and> cooccurrence [(''I1'', [''A'', ''B'']), (''I2'', [''A'', ''C''])] ''A'' ''B'' = 1
   \<and> cooccurrence [(''I1'', [''A'', ''B'']), (''I2'', [''A'', ''C''])] ''A'' ''C'' = 1
   \<and> (case accumulate [[''A'', ''B''], [''A'', ''C'']] of
         Inl e \<Rightarrow> False
       | Inr s \<Rightarrow> known_files s = [''A'', ''B'', ''C'']
           \<and> edges s = [(0, [0, 1, 2]), (1, [0, 1]), (2, [0, 2])]
           \<and> weights s = [(0, [2, 1, 1]), (1, [1, 1]), (2, [1, 1])])"
  by (simp add: graph_defs cooccurrence_def)

text \<open>
  Claim C2 (self-edge weight = number of retained issues with the file; edge weight =
  number of retained issues with both files; symmetric) does not hold of the code. On
  \<open>{"I1": ("A","B"), "I2": ("B","C")}\<close> the returned tables give the self-edge of B
  (node 1) the weight 1 although two retained issues contain B, and they give the edge
  from B to C (node 2) the weight 2 but the edge from C to B the weight 1, although one
  retained issue contains both. The tables accumulated before the last loop give the
  three edges the weights 2, 1 and 1.
\<close>

theorem edge_weights_wrong_and_asymmetric:
  "(case correlate_files_with_each_other [(''I1'', [''A'', ''B'']), (''I2'', [''B'', ''C''])] of
      Inl e \<Rightarrow> False
    | Inr (kf, es, ws) \<Rightarrow>
        kf = [''A'', ''B'', ''C'']
        \<and> edge_weight es ws 1 1 = Some 1
        \<and> edge_weight es ws 1 2 = Some 2
        \<and> edge_weight es ws 2 1 = Some 1)
   \<and> cooccurrence [(''I1'', [''A'', ''B'']), (''I2'', [''B'', ''C''])] ''B'' ''B'' = 2
   \<and> cooccurrence [(''I1'', [''A'', ''B'']), (''I2'', [''B'', ''C''])] ''B'' ''C'' = 1
   \<and> (case accumulate [[''A'', ''B''], [''B'', ''C'']] of
         Inl e \<Rightarrow> False
       | Inr s \<Rightarrow> edge_weight (edges s) (weights s) 1 1 = Some 2
           \<and> edge_weight (edges s) (weights s) 1 2 = Some 1
           \<and> edge_weight (edges s) (weights s) 2 1 = Some 1)"
  by (simp add: graph_defs cooccurrence_def edge_weight_def)

text \<open>
  Claim C10 (graph construction never raises on a well-formed input; the weight sort
  never looks up a missing key) does not hold of the code. On the one-issue, one-file
  input \<open>{"X": ("A",)}\<close> the only node is 0 with weight sequence \<open>(1)\<close>; the key function
  evaluates \<^verbatim>\<open>edges[1]\<close>, and 1 is not a node: \<^verbatim>\<open>KeyError\<close>.
\<close>

theorem weight_sort_raises_KeyError:
  "correlate_files_with_each_other [(''X'', [''A''])] = Inl KeyError"
  by (simp add: graph_defs)

section \<open>Issue aggregation: proofs\<close>

lemma composite_inj:
  "CHR '':'' \<notin> set d1 \<Longrightarrow> CHR '':'' \<notin> set d2 \<Longrightarrow> d1 @ '':'' @ k1 = d2 @ '':'' @ k2
     \<Longrightarrow> d1 = d2 \<and> k1 = k2"
proof (induction d1 arbitrary: d2)
  case Nil
  then show ?case by (cases d2) auto
next
  case (Cons a d1)
  then show ?case by (cases d2) auto
qed

lemma track_latest_simp [simp]: "track_latest (i, d, fs, ss) = latest_step i d"
  by (simp add: track_latest_def)

lemma collect_files_simp [simp]: "collect_files (i, d, fs, ss) = add_files i fs"
  by (simp add: collect_files_def)

lemma collect_sizes_simp [simp]: "collect_sizes (i, d, fs, ss) = add_sizes i ss"
  by (simp add: collect_sizes_def)

lemma dates_of_snoc:
  "dates_of (cs @ [(i, d, fs, ss)]) j = (if i = j then dates_of cs j @ [d] else dates_of cs j)"
  by (simp add: dates_of_def)

lemma files_of_snoc:
  "files_of (cs @ [(i, d, fs, ss)]) j = (if i = j then files_of cs j \<union> set fs else files_of cs j)"
  by (simp add: files_of_def)

lemma sizes_of_snoc:
  "sizes_of (cs @ [(i, d, fs, ss)]) j = (if i = j then sizes_of cs j @ ss else sizes_of cs j)"
  by (simp add: sizes_of_def)

lemma issues_of_snoc: "issues_of (cs @ [(i, d, fs, ss)]) = insert i (issues_of cs)"
  by (simp add: issues_of_def)

lemma dates_of_Nil_iff: "dates_of cs i = [] \<longleftrightarrow> i \<notin> issues_of cs"
  by (induction cs) (auto simp: dates_of_def issues_of_def)

lemma files_of_unknown: "i \<notin> issues_of cs \<Longrightarrow> files_of cs i = {}"
  by (force simp: files_of_def issues_of_def)

lemma sizes_of_unknown: "i \<notin> issues_of cs \<Longrightarrow> sizes_of cs i = []"
  by (force simp: sizes_of_def issues_of_def filter_empty_conv)

lemma map_of_latest:
  "map_of (fold track_latest cs []) i =
     (if i \<in> issues_of cs then Some (latest_date cs i) else None)"
proof (induction cs rule: rev_induct)
  case Nil
  then show ?case by (simp add: issues_of_def)
next
  case (snoc c cs)
  obtain j d fs ss where c: "c = (j, d, fs, ss)" by (cases c) auto
  show ?case
  proof (cases "j = i")
    case False
    with snoc c show ?thesis
      by (simp add: latest_step_def dates_of_snoc issues_of_snoc latest_date_def
            AList.update_conv' split: option.splits)
  next
    case True
    show ?thesis
    proof (cases "i \<in> issues_of cs")
      case False
      then have "dates_of cs i = []" by (simp add: dates_of_Nil_iff)
      with False snoc c \<open>j = i\<close> show ?thesis
        by (simp add: latest_step_def dates_of_snoc issues_of_snoc latest_date_def
              AList.update_conv')
    next
      case inI: True
      then have ne: "dates_of cs i \<noteq> []" by (simp add: dates_of_Nil_iff)
      let ?m = "Max (set (dates_of cs i))"
      have M: "Max (insert d (set (dates_of cs i))) = max d ?m"
        using ne by (intro Max_insert) auto
      have old: "map_of (fold track_latest cs []) i = Some ?m"
        using snoc inI by (simp add: latest_date_def)
      have "(if ?m < d then d else ?m) = max d ?m"
        by (auto simp: max_def)
      with old M c \<open>j = i\<close> show ?thesis
        by (simp add: latest_step_def dates_of_snoc issues_of_snoc latest_date_def
              AList.update_conv')
    qed
  qed
qed

lemma fold_insert_set: "fold insert xs A = A \<union> set xs"
  by (induction xs arbitrary: A) auto

lemma fold_plus_sum: "fold (\<lambda>s acc. acc + s) xs (a::int) = a + sum_list xs"
  by (induction xs arbitrary: a) auto

lemma map_of_collect_files:
  "map_of (fold collect_files cs []) i =
     (if i \<in> issues_of cs then Some (files_of cs i) else None)"
proof (induction cs rule: rev_induct)
  case Nil
  then show ?case by (simp add: issues_of_def)
next
  case (snoc c cs)
  obtain j d fs ss where c: "c = (j, d, fs, ss)" by (cases c) auto
  show ?case
  proof (cases "j = i")
    case False
    with snoc c show ?thesis
      by (simp add: add_files_def files_of_snoc issues_of_snoc AList.update_conv')
  next
    case True
    with snoc c show ?thesis
      by (cases "i \<in> issues_of cs")
         (simp_all add: add_files_def files_of_snoc issues_of_snoc AList.update_conv'
            fold_insert_set files_of_unknown)
  qed
qed

lemma map_of_collect_sizes:
  "map_of (fold collect_sizes cs []) i =
     (if i \<in> issues_of cs then Some (sum_list (sizes_of cs i)) else None)"
proof (induction cs rule: rev_induct)
  case Nil
  then show ?case by (simp add: issues_of_def)
next
  case (snoc c cs)
  obtain j d fs ss where c: "c = (j, d, fs, ss)" by (cases c) auto
  show ?case
  proof (cases "j = i")
    case False
    with snoc c show ?thesis
      by (simp add: add_sizes_def sizes_of_snoc issues_of_snoc AList.update_conv')
  next
    case True
    with snoc c show ?thesis
      by (cases "i \<in> issues_of cs")
         (simp_all add: add_sizes_def sizes_of_snoc issues_of_snoc AList.update_conv'
            fold_plus_sum sizes_of_unknown)
  qed
qed

lemma distinct_collect_files: "distinct (map fst (fold collect_files cs []))"
proof (induction cs rule: rev_induct)
  case Nil
  then show ?case by simp
next
  case (snoc c cs)
  then show ?case by (cases c) (simp add: add_files_def distinct_update)
qed

lemma distinct_collect_sizes: "distinct (map fst (fold collect_sizes cs []))"
proof (induction cs rule: rev_induct)
  case Nil
  then show ?case by simp
next
  case (snoc c cs)
  then show ?case by (cases c) (simp add: add_sizes_def distinct_update)
qed

lemma keys_collect_files: "fst ` set (fold collect_files cs []) = issues_of cs"
proof -
  have "fst ` set (fold collect_files cs []) = dom (map_of (fold collect_files cs []))"
    by (simp add: dom_map_of_conv_image_fst)
  also have "\<dots> = issues_of cs"
    by (auto simp: map_of_collect_files dom_def)
  finally show ?thesis .
qed

lemma keys_collect_sizes: "fst ` set (fold collect_sizes cs []) = issues_of cs"
proof -
  have "fst ` set (fold collect_sizes cs []) = dom (map_of (fold collect_sizes cs []))"
    by (simp add: dom_map_of_conv_image_fst)
  also have "\<dots> = issues_of cs"
    by (auto simp: map_of_collect_sizes dom_def)
  finally show ?thesis .
qed

subsection \<open>The loop that builds the composite keys\<close>

lemma foldM_add_date:
  "\<forall>k \<in> fst ` set items. map_of idl k \<noteq> None \<Longrightarrow>
   foldM (add_date idl) items acc =
     Inr (fold (\<lambda>(k, v). AList.update (the (map_of idl k) @ '':'' @ k) v) items acc)"
proof (induction items arbitrary: acc)
  case Nil
  then show ?case by simp
next
  case (Cons kv items)
  obtain k v where kv: "kv = (k, v)" by (cases kv) auto
  from Cons.prems kv obtain d where d: "map_of idl k = Some d" by auto
  from Cons kv d show ?case
    by (simp add: add_date_def bind_def getitem_def)
qed

lemma map_of_fold_update_inj:
  "distinct (map fst items) \<Longrightarrow> inj_on kf (fst ` set items) \<Longrightarrow> (k, v) \<in> set items \<Longrightarrow>
   map_of (fold (\<lambda>(k, v). AList.update (kf k) v) items []) (kf k) = Some v"
proof (induction items rule: rev_induct)
  case Nil
  then show ?case by simp
next
  case (snoc kv items)
  obtain k' v' where kv: "kv = (k', v')" by (cases kv) auto
  show ?case
  proof (cases "(k, v) \<in> set items")
    case True
    with snoc.prems kv have "k \<noteq> k'" by (auto simp: image_iff)
    moreover from snoc.prems kv True have "kf k \<noteq> kf k'"
      using \<open>k \<noteq> k'\<close> by (auto simp: inj_on_def image_iff dest!: bspec)
    moreover have "map_of (fold (\<lambda>(k, v). AList.update (kf k) v) items []) (kf k) = Some v"
      using snoc True by (auto simp: inj_on_def)
    ultimately show ?thesis using kv by (simp add: AList.update_conv')
  next
    case False
    with snoc.prems kv have "k = k'" "v = v'" by auto
    then show ?thesis using kv by (simp add: AList.update_conv')
  qed
qed

lemma keys_fold_update:
  "fst ` set (fold (\<lambda>(k, v). AList.update (kf k) v) items acc) = fst ` set acc \<union> kf ` fst ` set items"
proof (induction items arbitrary: acc)
  case Nil
  then show ?case by simp
next
  case (Cons kv items)
  then show ?case by (cases kv) (auto simp: AList.dom_update)
qed

lemma distinct_fold_update:
  "distinct (map fst acc) \<Longrightarrow> distinct (map fst (fold (\<lambda>(k, v). AList.update (kf k) v) items acc))"
proof (induction items arbitrary: acc)
  case Nil
  then show ?case by simp
next
  case (Cons kv items)
  then show ?case by (cases kv) (simp add: distinct_update)
qed

lemma latest_date_in: "i \<in> issues_of cs \<Longrightarrow> latest_date cs i \<in> set (dates_of cs i)"
  unfolding latest_date_def by (intro Max_in) (auto simp: dates_of_Nil_iff)

lemma latest_date_ge: "d \<in> set (dates_of cs i) \<Longrightarrow> d \<le> latest_date cs i"
  unfolding latest_date_def by (intro Max_ge) auto

lemma dates_colon_free:
  "colon_free_dates cs \<Longrightarrow> d \<in> set (dates_of cs i) \<Longrightarrow> CHR '':'' \<notin> set d"
  by (auto simp: colon_free_dates_def dates_of_def list_all_iff)

lemma composite_key_inj:
  assumes "colon_free_dates cs"
  shows "inj_on (composite_key cs) (issues_of cs)"
proof (rule inj_onI)
  fix i j
  assume ij: "i \<in> issues_of cs" "j \<in> issues_of cs" "composite_key cs i = composite_key cs j"
  have "CHR '':'' \<notin> set (latest_date cs i)" "CHR '':'' \<notin> set (latest_date cs j)"
    using assms ij latest_date_in dates_colon_free by blast+
  with ij(3) show "i = j"
    unfolding composite_key_def using composite_inj by blast
qed

lemma dated_key: "i \<in> issues_of cs \<Longrightarrow>
   the (map_of (fold track_latest cs []) i) @ '':'' @ i = composite_key cs i"
  by (simp add: map_of_latest composite_key_def)

text \<open>The loop over a dictionary whose keys are the issues that occur.\<close>

lemma dated_loop:
  assumes cf: "colon_free_dates cs"
    and keys: "fst ` set items = issues_of cs"
    and dist: "distinct (map fst items)"
  shows "\<exists>out. foldM (add_date (fold track_latest cs [])) items [] = Inr out
           \<and> distinct (map fst out)
           \<and> fst ` set out = composite_key cs ` issues_of cs
           \<and> (\<forall>(k, v) \<in> set items. map_of out (composite_key cs k) = Some v)"
proof -
  let ?idl = "fold track_latest cs []"
  let ?kf = "\<lambda>k. the (map_of ?idl k) @ '':'' @ k"
  let ?out = "fold (\<lambda>(k, v). AList.update (?kf k) v) items []"
  have kf: "\<And>k. k \<in> issues_of cs \<Longrightarrow> ?kf k = composite_key cs k"
    by (rule dated_key)
  have "\<forall>k \<in> fst ` set items. map_of ?idl k \<noteq> None"
    using keys by (simp add: map_of_latest)
  then have run: "foldM (add_date ?idl) items [] = Inr ?out"
    by (rule foldM_add_date)
  have inj: "inj_on ?kf (fst ` set items)"
    unfolding keys using composite_key_inj [OF cf] kf by (auto simp: inj_on_def)
  have d: "distinct (map fst ?out)"
    by (rule distinct_fold_update) simp
  have k: "fst ` set ?out = composite_key cs ` issues_of cs"
    using kf by (simp add: keys_fold_update keys)
  have m: "\<forall>(k, v) \<in> set items. map_of ?out (composite_key cs k) = Some v"
  proof (clarify)
    fix k v assume kv: "(k, v) \<in> set items"
    then have "k \<in> issues_of cs" using keys by force
    then have "composite_key cs k = ?kf k" using kf by simp
    moreover have "map_of ?out (?kf k) = Some v"
      using dist inj kv by (rule map_of_fold_update_inj)
    ultimately show "map_of ?out (composite_key cs k) = Some v" by simp
  qed
  from run d k m show ?thesis by blast
qed

lemma map_fst_map_values: "map fst (map (\<lambda>(key, value). (key, g value)) xs) = map fst xs"
  by (induction xs) auto

text \<open>
  Claim C5: for every sequence of change records (with dates that hold no colon, as
  the ISO dates of the data model do) \<^verbatim>\<open>aggregate_files_per_issue\<close> returns, without
  raising, a dictionary whose keys are exactly the composite keys
  \<open>latest_date + ":" + issue_id\<close> of the issues that occur; the value of an issue is the
  union of the files of all its records, without duplicates and in ascending order;
  and the latest date is one of the dates of the issue's records and not below any of
  them (the lexicographic maximum).
\<close>

theorem aggregate_files_per_issue_correct:
  assumes "colon_free_dates changes"
  shows "\<exists>out. aggregate_files_per_issue changes = Inr out
           \<and> distinct (map fst out)
           \<and> fst ` set out = composite_key changes ` issues_of changes
           \<and> (\<forall>issue \<in> issues_of changes.
                 \<exists>files. map_of out (composite_key changes issue) = Some files
                   \<and> set files = files_of changes issue \<and> sorted files \<and> distinct files
                   \<and> latest_date changes issue \<in> set (dates_of changes issue)
                   \<and> (\<forall>d \<in> set (dates_of changes issue). d \<le> latest_date changes issue))"
proof -
  let ?mapped = "fold collect_files changes []"
  let ?items = "map (\<lambda>(key, value). (key, sorted_list_of_set value)) ?mapped"
  have fst_items: "map fst ?items = map fst ?mapped"
    by (rule map_fst_map_values)
  have "set (map fst ?items) = set (map fst ?mapped)"
    by (simp only: fst_items)
  then have keys: "fst ` set ?items = issues_of changes"
    using keys_collect_files [of changes] by (simp only: set_map)
  have dist: "distinct (map fst ?items)"
    using distinct_collect_files [of changes] by (simp only: fst_items)
  from dated_loop [OF assms keys dist] obtain out where
    run: "foldM (add_date (fold track_latest changes [])) ?items [] = Inr out"
    and d: "distinct (map fst out)"
    and k: "fst ` set out = composite_key changes ` issues_of changes"
    and m: "\<forall>(k, v) \<in> set ?items. map_of out (composite_key changes k) = Some v"
    by blast
  have agg: "aggregate_files_per_issue changes = Inr out"
    using run by (simp add: aggregate_files_per_issue_def)
  have vals: "\<exists>files. map_of out (composite_key changes issue) = Some files
                   \<and> set files = files_of changes issue \<and> sorted files \<and> distinct files
                   \<and> latest_date changes issue \<in> set (dates_of changes issue)
                   \<and> (\<forall>d \<in> set (dates_of changes issue). d \<le> latest_date changes issue)"
    if iss: "issue \<in> issues_of changes" for issue
  proof -
    have "map_of ?mapped issue = Some (files_of changes issue)"
      using iss by (simp add: map_of_collect_files)
    then have "(issue, files_of changes issue) \<in> set ?mapped"
      by (rule map_of_SomeD)
    then have "(issue, sorted_list_of_set (files_of changes issue)) \<in> set ?items"
      by force
    with m have look: "map_of out (composite_key changes issue) =
        Some (sorted_list_of_set (files_of changes issue))"
      by blast
    have fin: "finite (files_of changes issue)"
      by (simp add: files_of_def)
    from look fin latest_date_in [OF iss] latest_date_ge show ?thesis
      by auto
  qed
  from agg d k vals show ?thesis by blast
qed

text \<open>Witness for C5: Scenario C, issue FOO-1111.\<close>

theorem aggregate_files_per_issue_correct_witness:
  "colon_free_dates scenario_C \<and> ''FOO-1111'' \<in> issues_of scenario_C \<and>
   (\<exists>out files. aggregate_files_per_issue scenario_C = Inr out
      \<and> map_of out ''2018-03-12:FOO-1111'' = Some files
      \<and> set files = {''A'', ''B'', ''C''} \<and> sorted files \<and> distinct files
      \<and> ''2018-03-10'' \<le> latest_date scenario_C ''FOO-1111'')"
proof -
  have h: "colon_free_dates scenario_C"
    by (simp add: colon_free_dates_def scenario_C_def)
  have i: "''FOO-1111'' \<in> issues_of scenario_C"
    by (simp add: issues_of_def scenario_C_def)
  have k: "composite_key scenario_C ''FOO-1111'' = ''2018-03-12:FOO-1111''"
    by (simp add: composite_key_def latest_date_def dates_of_def scenario_C_def)
  have f: "files_of scenario_C ''FOO-1111'' = {''A'', ''B'', ''C''}"
    by (auto simp: files_of_def scenario_C_def)
  have d: "''2018-03-10'' \<in> set (dates_of scenario_C ''FOO-1111'')"
    by (simp add: dates_of_def scenario_C_def)
  from aggregate_files_per_issue_correct [OF h] obtain out where
    run: "aggregate_files_per_issue scenario_C = Inr out"
    and vals: "\<forall>issue \<in> issues_of scenario_C.
                 \<exists>files. map_of out (composite_key scenario_C issue) = Some files
                   \<and> set files = files_of scenario_C issue \<and> sorted files \<and> distinct files
                   \<and> latest_date scenario_C issue \<in> set (dates_of scenario_C issue)
                   \<and> (\<forall>d \<in> set (dates_of scenario_C issue). d \<le> latest_date scenario_C issue)"
    by blast
  from vals i have "\<exists>files. map_of out (composite_key scenario_C ''FOO-1111'') = Some files
       \<and> set files = files_of scenario_C ''FOO-1111'' \<and> sorted files \<and> distinct files
       \<and> (\<forall>d \<in> set (dates_of scenario_C ''FOO-1111''). d \<le> latest_date scenario_C ''FOO-1111'')"
    by blast
  with d have "\<exists>files. map_of out ''2018-03-12:FOO-1111'' = Some files
       \<and> set files = {''A'', ''B'', ''C''} \<and> sorted files \<and> distinct files
       \<and> ''2018-03-10'' \<le> latest_date scenario_C ''FOO-1111''"
    unfolding k f by blast
  with h i run show ?thesis by blast
qed

lemma sorted_fst_sort: "sorted (map fst (sort (xs :: ('a::linorder \<times> 'b::linorder) list)))"
proof -
  have "sorted_wrt (\<lambda>x y. fst x \<le> fst y) (sort xs)"
    by (rule sorted_wrt_mono_rel [of _ "(\<le>)"]) (auto simp: less_eq_prod_def)
  then show ?thesis by (simp add: sorted_map)
qed

lemma distinct_fst_sort:
  "distinct (map fst xs) \<Longrightarrow> distinct (map fst (sort (xs :: ('a::linorder \<times> 'b::linorder) list)))"
  by (simp add: distinct_map)

lemma map_of_sort:
  assumes "distinct (map fst xs)"
  shows "map_of (sort (xs :: ('a::linorder \<times> 'b::linorder) list)) = map_of xs"
proof (rule map_of_inject_set [THEN iffD2])
  show "distinct (map fst (sort xs))" using assms by (rule distinct_fst_sort)
  show "distinct (map fst xs)" by fact
  show "set (sort xs) = set xs" by simp
qed

lemmas agg_defs = aggregate_files_per_issue_def sum_filesizes_per_issue_def latest_step_def
  add_files_def add_sizes_def add_date_def bind_def getitem_def Let_def
  track_latest_def collect_files_def collect_sizes_def

text \<open>
  Claim C8: for every sequence of change records (with dates that hold no colon)
  \<^verbatim>\<open>sum_filesizes_per_issue\<close> returns, without raising, a list sorted ascending by its
  distinct keys; the keys are exactly the composite keys \<open>latest_date + ":" + issue_id\<close>
  of the issues that occur, and the value of an issue is the sum of all sizes of all its
  records (sizes are summed per record, so a file touched twice counts twice). On
  Scenario C the result is \<open>("2018-03-11:FOO-1112", 10), ("2018-03-12:FOO-1111", 23)\<close>.
\<close>

theorem sum_filesizes_per_issue_correct:
  "(colon_free_dates changes \<longrightarrow>
      (\<exists>out. sum_filesizes_per_issue changes = Inr out
         \<and> sorted (map fst out) \<and> distinct (map fst out)
         \<and> fst ` set out = composite_key changes ` issues_of changes
         \<and> (\<forall>issue \<in> issues_of changes.
               map_of out (composite_key changes issue) = Some (sum_list (sizes_of changes issue)))))
   \<and> sum_filesizes_per_issue
        [(''FOO-1111'', ''2018-03-12'', [''A'', ''B''], [1, 15]),
         (''FOO-1111'', ''2018-03-10'', [''A'', ''C''], [2, 5]),
         (''FOO-1112'', ''2018-03-11'', [''A'', ''D''], [2, 8])]
      = Inr [(''2018-03-11:FOO-1112'', 10), (''2018-03-12:FOO-1111'', 23)]"
proof (intro conjI impI)
  assume cf: "colon_free_dates changes"
  let ?mapped = "fold collect_sizes changes []"
  from dated_loop [OF cf keys_collect_sizes distinct_collect_sizes] obtain wd where
    run: "foldM (add_date (fold track_latest changes [])) ?mapped [] = Inr wd"
    and d: "distinct (map fst wd)"
    and k: "fst ` set wd = composite_key changes ` issues_of changes"
    and m: "\<forall>(k, v) \<in> set ?mapped. map_of wd (composite_key changes k) = Some v"
    by blast
  have res: "sum_filesizes_per_issue changes = Inr (sort wd)"
    using run by (simp add: sum_filesizes_per_issue_def bind_def)
  have vals: "map_of (sort wd) (composite_key changes issue) = Some (sum_list (sizes_of changes issue))"
    if iss: "issue \<in> issues_of changes" for issue
  proof -
    have "map_of ?mapped issue = Some (sum_list (sizes_of changes issue))"
      using iss by (simp add: map_of_collect_sizes)
    then have "(issue, sum_list (sizes_of changes issue)) \<in> set ?mapped"
      by (rule map_of_SomeD)
    with m show ?thesis by (auto simp: map_of_sort [OF d])
  qed
  have k': "fst ` set (sort wd) = composite_key changes ` issues_of changes"
    using k by simp
  from res sorted_fst_sort [of wd] distinct_fst_sort [OF d] k' vals
  show "\<exists>out. sum_filesizes_per_issue changes = Inr out
         \<and> sorted (map fst out) \<and> distinct (map fst out)
         \<and> fst ` set out = composite_key changes ` issues_of changes
         \<and> (\<forall>issue \<in> issues_of changes.
               map_of out (composite_key changes issue) = Some (sum_list (sizes_of changes issue)))"
    by blast
next
  show "sum_filesizes_per_issue
        [(''FOO-1111'', ''2018-03-12'', [''A'', ''B''], [1, 15]),
         (''FOO-1111'', ''2018-03-10'', [''A'', ''C''], [2, 5]),
         (''FOO-1112'', ''2018-03-11'', [''A'', ''D''], [2, 8])]
      = Inr [(''2018-03-11:FOO-1112'', 10), (''2018-03-12:FOO-1111'', 23)]"
    by (simp add: agg_defs)
qed

text \<open>Witness for C8: Scenario C, issue FOO-1111.\<close>

theorem sum_filesizes_per_issue_correct_witness:
  "colon_free_dates scenario_C \<and> ''FOO-1111'' \<in> issues_of scenario_C \<and>
   (\<exists>out. sum_filesizes_per_issue scenario_C = Inr out
      \<and> sorted (map fst out)
      \<and> map_of out ''2018-03-12:FOO-1111'' = Some 23)"
proof -
  have h: "colon_free_dates scenario_C"
    by (simp add: colon_free_dates_def scenario_C_def)
  have i: "''FOO-1111'' \<in> issues_of scenario_C"
    by (simp add: issues_of_def scenario_C_def)
  have k: "composite_key scenario_C ''FOO-1111'' = ''2018-03-12:FOO-1111''"
    by (simp add: composite_key_def latest_date_def dates_of_def scenario_C_def)
  have f: "sum_list (sizes_of scenario_C ''FOO-1111'') = 23"
    by (simp add: sizes_of_def scenario_C_def)
  from sum_filesizes_per_issue_correct [of scenario_C] h obtain out where
    run: "sum_filesizes_per_issue scenario_C = Inr out"
    and srt: "sorted (map fst out)"
    and vals: "\<forall>issue \<in> issues_of scenario_C.
        map_of out (composite_key scenario_C issue) = Some (sum_list (sizes_of scenario_C issue))"
    by blast
  from vals i have "map_of out (composite_key scenario_C ''FOO-1111'')
      = Some (sum_list (sizes_of scenario_C ''FOO-1111''))"
    by blast
  then have "map_of out ''2018-03-12:FOO-1111'' = Some 23"
    unfolding k f .
  with h i run srt show ?thesis by blast
qed

section \<open>Line parsing: proofs\<close>

lemma split_char_absent:
  "c0 \<notin> set a \<Longrightarrow> split_from [c0] n cur a = [cur @ a]"
proof (induction a arbitrary: cur)
  case Nil
  then show ?case by (cases n) auto
next
  case (Cons x a)
  then show ?case by (cases n) auto
qed

lemma split_char_first:
  "c0 \<notin> set a \<Longrightarrow> split_from [c0] (Suc n) cur (a @ c0 # s) = (cur @ a) # split_from [c0] n [] s"
  by (induction a arbitrary: cur) auto

lemma split_fuel:
  "sep \<noteq> [] \<Longrightarrow> length s \<le> n \<Longrightarrow> length s \<le> m \<Longrightarrow>
   split_from sep n cur s = split_from sep m cur s"
proof (induction sep n cur s arbitrary: m rule: split_from.induct)
  case (1 sep cur s)
  then show ?case by (cases m) auto
next
  case (2 sep n cur)
  then show ?case by (cases m) auto
next
  case (3 sep n cur c s)
  from "3.prems" obtain m' where m: "m = Suc m'" by (cases m) auto
  show ?case
  proof (cases "prefix sep (c # s)")
    case True
    have len: "length (drop (length sep) (c # s)) \<le> length s"
      using "3.prems"(1) by (cases sep) auto
    have a: "length (drop (length sep) (c # s)) \<le> n"
      using len "3.prems" by simp
    have b: "length (drop (length sep) (c # s)) \<le> m'"
      using len "3.prems" m by simp
    have "split_from sep n [] (drop (length sep) (c # s)) =
          split_from sep m' [] (drop (length sep) (c # s))"
      by (rule "3.IH"(1) [OF True "3.prems"(1) a b])
    with True m show ?thesis by simp
  next
    case False
    have a: "length s \<le> Suc n" and b: "length s \<le> m"
      using "3.prems" by simp_all
    have "split_from sep (Suc n) (cur @ [c]) s = split_from sep m (cur @ [c]) s"
      by (rule "3.IH"(2) [OF False "3.prems"(1) a b])
    with False m show ?thesis by simp
  qed
qed

lemma str_split_absent: "c0 \<notin> set a \<Longrightarrow> str_split [c0] a = [a]"
  by (simp add: str_split_def split_char_absent)

lemma str_split_first:
  assumes "c0 \<notin> set a"
  shows "str_split [c0] (a @ c0 # s) = a # str_split [c0] s"
proof -
  have "split_from [c0] (length a + length s) [] s = split_from [c0] (length s) [] s"
    by (rule split_fuel) auto
  with assms show ?thesis
    by (simp add: str_split_def split_char_first)
qed

lemma not_sublist_ConsD:
  "\<not> sublist sep (c # s) \<Longrightarrow> \<not> prefix sep (c # s) \<and> \<not> sublist sep s"
  by (simp add: sublist_Cons_right)

lemma split_sep_absent:
  "\<not> sublist sep s \<Longrightarrow> split_from sep n cur s = [cur @ s]"
proof (induction s arbitrary: cur)
  case Nil
  then show ?case by (cases n) auto
next
  case (Cons x s)
  then show ?case by (cases n) (auto dest!: not_sublist_ConsD)
qed

lemma colon_space_boundary:
  assumes "\<not> sublist '': '' (x # fs)"
  shows "\<not> prefix '': '' (x # fs @ '': '' @ t)"
proof
  assume p: "prefix '': '' (x # fs @ '': '' @ t)"
  show False
  proof (cases fs)
    case Nil
    with p show False by simp
  next
    case (Cons y fs')
    with p have "prefix '': '' (x # fs)" by simp
    with assms show False by (simp add: sublist_Cons_right)
  qed
qed

lemma split_colon_space_first:
  "\<not> sublist '': '' fs \<Longrightarrow>
   split_from '': '' (Suc n) cur (fs @ '': '' @ t) = (cur @ fs) # split_from '': '' n [] t"
proof (induction fs arbitrary: cur)
  case Nil
  then show ?case by simp
next
  case (Cons x fs)
  from Cons.prems have np: "\<not> prefix '': '' (x # fs @ '': '' @ t)"
    by (rule colon_space_boundary)
  from Cons.prems have "\<not> sublist '': '' fs"
    by (simp add: sublist_Cons_right)
  then have "split_from '': '' (Suc n) (cur @ [x]) (fs @ '': '' @ t)
      = ((cur @ [x]) @ fs) # split_from '': '' n [] t"
    by (rule Cons.IH)
  with np show ?case by simp
qed

lemma first_colon_space:
  "sublist '': '' s \<Longrightarrow> \<exists>fs t. s = fs @ '': '' @ t \<and> \<not> sublist '': '' fs"
proof (induction s)
  case Nil
  then show ?case by simp
next
  case (Cons c s)
  show ?case
  proof (cases "prefix '': '' (c # s)")
    case True
    then obtain t where "c # s = '': '' @ t" by (auto simp: prefix_def)
    then have "c # s = [] @ '': '' @ t \<and> \<not> sublist '': '' []" by simp
    then show ?thesis by blast
  next
    case False
    from Cons.prems have "prefix '': '' (c # s) \<or> sublist '': '' s"
      by (simp only: sublist_Cons_right)
    with False have "sublist '': '' s" by blast
    with Cons.IH obtain fs t where s: "s = fs @ '': '' @ t" and n: "\<not> sublist '': '' fs"
      by blast
    have "\<not> prefix '': '' (c # fs)"
    proof
      assume "prefix '': '' (c # fs)"
      then have "prefix '': '' ((c # fs) @ '': '' @ t)" by (rule prefix_prefix)
      then have "prefix '': '' (c # fs @ '': '' @ t)" by (simp only: append_Cons)
      moreover from False have "\<not> prefix '': '' (c # fs @ '': '' @ t)" unfolding s .
      ultimately show False by blast
    qed
    with n have "\<not> sublist '': '' (c # fs)" by (simp add: sublist_Cons_right)
    moreover from s have "c # s = (c # fs) @ '': '' @ t" by simp
    ultimately show ?thesis by blast
  qed
qed

lemma split_fields:
  assumes "CHR '' '' \<notin> set commit_id" "CHR '' '' \<notin> set issue_id" "CHR '' '' \<notin> set isodate"
  shows "str_split_max '' '' 3 (commit_id @ '' '' @ issue_id @ '' '' @ isodate @ '' '' @ rest)
         = [commit_id, issue_id, isodate, rest]"
proof -
  have 3: "(3::nat) = Suc (Suc (Suc 0))" by simp
  show ?thesis
    unfolding str_split_max_def 3
    using assms by (simp add: split_char_first)
qed

lemma split_rest_present:
  "\<not> sublist '': '' fs \<Longrightarrow> str_split_max '': '' 1 (fs @ '': '' @ t) = [fs, t]"
  unfolding str_split_max_def One_nat_def
  using split_colon_space_first [of fs 0 "[]" t] by simp

lemma split_rest_absent:
  "\<not> sublist '': '' rest \<Longrightarrow> str_split_max '': '' 1 rest = [rest]"
  unfolding str_split_max_def by (simp add: split_sep_absent)

lemma those_None_iff: "those xs = None \<longleftrightarrow> None \<in> set xs"
  by (induction xs) (auto split: option.splits)

lemma those_length: "those xs = Some ys \<Longrightarrow> length ys = length xs"
  by (induction xs arbitrary: ys) (auto split: option.splits)

lemma split_from_nonempty: "split_from sep n cur s \<noteq> []"
  by (induction sep n cur s rule: split_from.induct) auto

lemma str_join_Cons: "rest \<noteq> [] \<Longrightarrow> str_join sep (a # rest) = a @ sep @ str_join sep rest"
  by (cases rest) auto

lemma join_split_from:
  "length x \<le> n \<Longrightarrow> str_join [c] (split_from [c] n cur x) = cur @ x"
proof (induction x arbitrary: cur n)
  case Nil
  then show ?case by (cases n) auto
next
  case (Cons y x)
  then obtain n' where n: "n = Suc n'" by (cases n) auto
  show ?case
  proof (cases "y = c")
    case True
    have "str_join [c] (split_from [c] n' [] x) = [] @ x"
      using Cons.prems n by (intro Cons.IH) auto
    with True n show ?thesis
      by (simp add: str_join_Cons split_from_nonempty)
  next
    case False
    have "str_join [c] (split_from [c] n (cur @ [y]) x) = (cur @ [y]) @ x"
      using Cons.prems n by (intro Cons.IH) auto
    with False n show ?thesis by simp
  qed
qed

lemma join_split: "str_join [c] (str_split [c] x) = x"
  by (simp add: str_split_def join_split_from)

lemma split_from_snoc:
  "length (x @ c # s) \<le> n \<Longrightarrow> c \<notin> set s \<Longrightarrow>
   split_from [c] n cur (x @ c # s) = split_from [c] n cur x @ [s]"
proof (induction x arbitrary: cur n)
  case Nil
  then obtain n' where n: "n = Suc n'" by (cases n) auto
  with Nil show ?case by (simp add: split_char_absent)
next
  case (Cons y x)
  then obtain n' where n: "n = Suc n'" by (cases n) auto
  show ?case
  proof (cases "y = c")
    case True
    have "split_from [c] n' [] (x @ c # s) = split_from [c] n' [] x @ [s]"
      using Cons.prems n by (intro Cons.IH) auto
    with True n show ?thesis by simp
  next
    case False
    have "split_from [c] n (cur @ [y]) (x @ c # s) = split_from [c] n (cur @ [y]) x @ [s]"
      using Cons.prems n by (intro Cons.IH) auto
    with False n show ?thesis by simp
  qed
qed

lemma str_split_snoc:
  assumes "c \<notin> set s"
  shows "str_split [c] (x @ c # s) = str_split [c] x @ [s]"
proof -
  have "split_from [c] (length (x @ c # s)) [] x = split_from [c] (length x) [] x"
    by (rule split_fuel) auto
  moreover have "split_from [c] (length (x @ c # s)) [] (x @ c # s)
      = split_from [c] (length (x @ c # s)) [] x @ [s]"
    using assms by (intro split_from_snoc) auto
  ultimately show ?thesis by (simp add: str_split_def)
qed

lemma entry_name_pair: "CHR '','' \<notin> set s \<Longrightarrow> entry_name (f @ CHR '','' # s) = f"
  using str_split_snoc [of "CHR '',''" s f] join_split [of "CHR '',''" f]
  by (simp add: entry_name_def)

lemma entry_size_pair:
  "CHR '','' \<notin> set s \<Longrightarrow> entry_size u (f @ CHR '','' # s) = py_int u s"
  using str_split_snoc [of "CHR '',''" s f]
  by (simp add: entry_size_def)

lemma entry_name_plain: "CHR '','' \<notin> set s \<Longrightarrow> entry_name s = []"
  by (simp add: entry_name_def str_split_absent)

lemma entry_size_plain: "CHR '','' \<notin> set s \<Longrightarrow> entry_size u s = py_int u s"
  by (simp add: entry_size_def str_split_absent)

lemma entry_name_piece: "CHR '','' \<notin> set (snd p) \<Longrightarrow> entry_name (piece_text p) = piece_name p"
  by (cases "fst p") (simp_all add: piece_text_def piece_name_def entry_name_plain entry_name_pair)

lemma entry_size_piece:
  "CHR '','' \<notin> set (snd p) \<Longrightarrow> entry_size u (piece_text p) = py_int u (snd p)"
  by (cases "fst p") (simp_all add: piece_text_def entry_size_plain entry_size_pair)

lemma sublist_colon_free_prefix:
  "CHR '':'' \<notin> set e \<Longrightarrow> sublist '': '' (e @ x) \<Longrightarrow> sublist '': '' x"
  by (induction e) (auto simp: sublist_Cons_right)

lemma colon_free_not_sublist: "CHR '':'' \<notin> set e \<Longrightarrow> \<not> sublist '': '' e"
  using set_mono_sublist [of "'': ''" e] by auto

text \<open>Splitting a run of entries, each after the separator, gives the entries back.\<close>

lemma split_pieces:
  "c \<notin> set junk \<Longrightarrow> \<forall>t \<in> set ts. c \<notin> set t \<Longrightarrow>
   str_split [c] (junk @ concat (map (\<lambda>t. c # t) ts)) = junk # ts"
proof (induction ts arbitrary: junk)
  case Nil
  then show ?case by (simp add: str_split_absent)
next
  case (Cons t ts)
  have "str_split [c] (junk @ c # (t @ concat (map (\<lambda>t. c # t) ts)))
      = junk # str_split [c] (t @ concat (map (\<lambda>t. c # t) ts))"
    using Cons.prems(1) by (rule str_split_first)
  moreover have "str_split [c] (t @ concat (map (\<lambda>t. c # t) ts)) = t # ts"
    using Cons.prems(2) by (intro Cons.IH) auto
  ultimately show ?case by simp
qed

lemma pieces_no_separator:
  "CHR '':'' \<notin> set junk \<Longrightarrow> \<forall>t \<in> set ts. CHR '':'' \<notin> set t \<and> \<not> prefix '' '' t \<Longrightarrow>
   \<not> sublist '': '' (junk @ concat (map (\<lambda>t. CHR '':'' # t) ts))"
proof (induction ts arbitrary: junk)
  case Nil
  then show ?case by (simp add: colon_free_not_sublist)
next
  case (Cons t ts)
  let ?r = "concat (map (\<lambda>t. CHR '':'' # t) ts)"
  from Cons.prems(2) have t: "CHR '':'' \<notin> set t" "\<not> prefix '' '' t" by simp_all
  have ih: "\<not> sublist '': '' (t @ ?r)"
    using t(1) Cons.prems(2) by (intro Cons.IH) auto
  have "\<not> prefix '' '' (t @ ?r)"
  proof (cases t)
    case Nil
    then show ?thesis by (cases ts) auto
  next
    case (Cons a t')
    with t(2) show ?thesis by auto
  qed
  then have "\<not> prefix '': '' (CHR '':'' # t @ ?r)" by simp
  with ih have "\<not> sublist '': '' (CHR '':'' # t @ ?r)"
    by (simp add: sublist_Cons_right)
  with Cons.prems(1) have "\<not> sublist '': '' (junk @ CHR '':'' # t @ ?r)"
    using sublist_colon_free_prefix by blast
  then show ?case by simp
qed

lemma manifest_text_concat:
  "manifest_text pieces = concat (map (\<lambda>t. CHR '':'' # t) (map piece_text pieces))"
  by (simp add: manifest_text_def comp_def)

lemma join_concat:
  "es \<noteq> [] \<Longrightarrow> CHR '':'' # str_join '':'' es = concat (map (\<lambda>e. CHR '':'' # e) es)"
proof (induction es)
  case Nil
  then show ?case by simp
next
  case (Cons e es)
  then show ?case by (cases es) auto
qed

text \<open>
  The evaluation rules of the parser, for the examples. The digit limit is compared by
  its own rule, so that the numeral 4300 is never unfolded.
\<close>

lemma few_digits:
  "0 < int_max_str_digits"
  "\<not> int_max_str_digits < Suc 0"
  "\<not> int_max_str_digits < Suc (Suc 0)"
  "\<not> int_max_str_digits < 2"
  by (simp_all add: int_max_str_digits_def)

lemmas int_defs = py_int_def is_ascii_def ascii_int_def ascii_only_def is_space_def
  is_digit_def digit_val_def few_digits

lemmas taskline_defs = process_taskline_def str_split_max_def str_split_def entry_size_def
  entry_name_def int_defs numeral_3_eq_3

text \<open>
  \<^verbatim>\<open>int\<close> on examples: a plain number, a sign with white space and an underscore, a
  doubled underscore, a file separator (0x1C) after the number, and a no-break space (the
  bytes 0xC2, 0xA0) before it, which is left to the parameter.
\<close>

lemma py_int_examples:
  "py_int u ''7'' = Some 7"
  "py_int u '' -1_0 '' = Some (- 10)"
  "py_int u ''1__0'' = None"
  "py_int u (''7'' @ [CHR 0x1C]) = None"
  "py_int u ([CHR 0x1F] @ ''5'') = None"
  "py_int u ''x'' = None"
  "py_int u '''' = None"
  "py_int u ([CHR 0xC2, CHR 0xA0] @ ''5'') = u ([CHR 0xC2, CHR 0xA0] @ ''5'')"
  by (simp_all add: int_defs)

text \<open>The digit limit: 4300 zeros are the number 0, 4301 zeros are refused.\<close>

lemma scan_zeros:
  "scan_digits acc digits CHR ''0'' (replicate n CHR ''0'') = Some (acc * 10 ^ n, digits + n)"
  by (induction n arbitrary: acc digits) (simp_all add: is_digit_def digit_val_def)

lemma ascii_int_zeros:
  "ascii_int (replicate (Suc n) CHR ''0'')
     = (if Suc n > int_max_str_digits then None else Some 0)"
proof -
  have "rev (CHR ''0'' # replicate n CHR ''0'') = CHR ''0'' # replicate n CHR ''0''"
    by (simp add: replicate_append_same)
  then show ?thesis
    by (simp add: ascii_int_def is_space_def is_digit_def digit_val_def scan_zeros)
qed

lemma digit_limit:
  "py_int u (replicate 4300 CHR ''0'') = Some 0"
  "py_int u (replicate 4301 CHR ''0'') = None"
proof -
  have ascii: "is_ascii (replicate n CHR ''0'')" for n
    by (simp add: is_ascii_def list_all_iff)
  have "(4300::nat) = Suc 4299" "(4301::nat) = Suc 4300" by simp_all
  then have "ascii_int (replicate 4300 CHR ''0'') = Some 0"
    "ascii_int (replicate 4301 CHR ''0'') = None"
    by (simp_all only: ascii_int_zeros) (simp_all add: int_max_str_digits_def)
  then show "py_int u (replicate 4300 CHR ''0'') = Some 0"
    "py_int u (replicate 4301 CHR ''0'') = None"
    by (simp_all only: py_int_def ascii if_True)
qed

text \<open>On an ASCII line the parameter is never called.\<close>

lemma split_from_chars:
  "p \<in> set (split_from sep n cur s) \<Longrightarrow> set p \<subseteq> set cur \<union> set s"
proof (induction sep n cur s arbitrary: p rule: split_from.induct)
  case (1 sep cur s)
  then show ?case by auto
next
  case (2 sep n cur)
  then show ?case by auto
next
  case (3 sep n cur c s)
  show ?case
  proof (cases "prefix sep (c # s)")
    case True
    with 3(3) have "p = cur \<or> p \<in> set (split_from sep n [] (drop (length sep) (c # s)))"
      by auto
    then show ?thesis
    proof
      assume "p = cur"
      then show ?thesis by auto
    next
      assume "p \<in> set (split_from sep n [] (drop (length sep) (c # s)))"
      with 3(1) True have "set p \<subseteq> set [] \<union> set (drop (length sep) (c # s))" by blast
      moreover have "set (drop (length sep) (c # s)) \<subseteq> set (c # s)" by (rule set_drop_subset)
      ultimately show ?thesis by auto
    qed
  next
    case False
    with 3(3) have "p \<in> set (split_from sep (Suc n) (cur @ [c]) s)" by simp
    with 3(2) False have "set p \<subseteq> set (cur @ [c]) \<union> set s" by blast
    then show ?thesis by auto
  qed
qed

lemma is_ascii_subset: "is_ascii s \<Longrightarrow> set p \<subseteq> set s \<Longrightarrow> is_ascii p"
  by (auto simp: is_ascii_def list_all_iff)

lemma split_max_ascii: "is_ascii s \<Longrightarrow> p \<in> set (str_split_max sep n s) \<Longrightarrow> is_ascii p"
  unfolding str_split_max_def using split_from_chars [of p sep n "[]" s]
  by (auto intro: is_ascii_subset)

lemma split_ascii: "is_ascii s \<Longrightarrow> p \<in> set (str_split sep s) \<Longrightarrow> is_ascii p"
  unfolding str_split_def using split_from_chars [of p sep "length s" "[]" s]
  by (auto intro: is_ascii_subset)

lemma entry_size_ascii: "is_ascii f \<Longrightarrow> entry_size u f = entry_size u' f"
proof -
  assume f: "is_ascii f"
  have "last (str_split '','' f) \<in> set (str_split '','' f)"
    by (simp add: str_split_def split_from_nonempty)
  with f have "is_ascii (last (str_split '','' f))" by (rule split_ascii)
  then show ?thesis by (simp add: entry_size_def py_int_def)
qed

lemma process_taskline_ascii:
  assumes "is_ascii taskline"
  shows "process_taskline u taskline = process_taskline u' taskline"
proof (cases "\<exists>commit_id issue_id isodate rest files_string title.
    str_split_max '' '' 3 taskline = [commit_id, issue_id, isodate, rest]
    \<and> str_split_max '': '' 1 rest = [files_string, title]")
  case True
  then obtain commit_id issue_id isodate rest files_string title
    where fields: "str_split_max '' '' 3 taskline = [commit_id, issue_id, isodate, rest]"
      and rest: "str_split_max '': '' 1 rest = [files_string, title]" by blast
  from fields have "rest \<in> set (str_split_max '' '' 3 taskline)" by simp
  with assms have "is_ascii rest" by (rule split_max_ascii)
  moreover from rest have "files_string \<in> set (str_split_max '': '' 1 rest)" by simp
  ultimately have fs: "is_ascii files_string" by (rule split_max_ascii)
  have "entry_size u f = entry_size u' f" if "f \<in> set (tl (str_split '':'' files_string))" for f
  proof -
    from that have "f \<in> set (str_split '':'' files_string)" by (rule list.set_sel(2) [rotated]) (use that in auto)
    with fs have "is_ascii f" by (rule split_ascii)
    then show ?thesis by (rule entry_size_ascii)
  qed
  then have eq: "map (entry_size u) (tl (str_split '':'' files_string))
      = map (entry_size u') (tl (str_split '':'' files_string))" by simp
  from rest have rest': "str_split_max '': '' (Suc 0) rest = [files_string, title]" by simp
  show ?thesis
    unfolding process_taskline_def fields by (simp add: Let_def rest' eq)
next
  case False
  then show ?thesis
    unfolding process_taskline_def by (auto split: list.splits)
qed

lemma recovery_general:
  assumes sp: "CHR '' '' \<notin> set commit_id" "CHR '' '' \<notin> set issue_id" "CHR '' '' \<notin> set isodate"
    and nosep: "\<not> sublist '': '' files_string"
    and ne: "files_string \<noteq> '':''"
    and bad: "\<exists>f \<in> set (tl (str_split '':'' files_string)). entry_size u f = None"
  shows "process_taskline u
           (commit_id @ '' '' @ issue_id @ '' '' @ isodate @ '' '' @ files_string @ '': '' @ title)
         = Inr ((issue_id, isodate, map entry_name (tl (str_split '':'' files_string)),
                 replicate (length (tl (str_split '':'' files_string))) 0),
                [commit_id @ '' '' @ issue_id @ '' '' @ isodate @ '' '' @ files_string @ '': '' @ title])"
proof -
  let ?files = "tl (str_split '':'' files_string)"
  have fields: "str_split_max '' '' 3
      (commit_id @ '' '' @ issue_id @ '' '' @ isodate @ '' '' @ files_string @ '': '' @ title)
      = [commit_id, issue_id, isodate, files_string @ '': '' @ title]"
    using sp by (rule split_fields)
  have rest: "str_split_max '': '' 1 (files_string @ '': '' @ title) = [files_string, title]"
    using nosep by (rule split_rest_present)
  have those: "those (map (entry_size u) ?files) = None"
    using bad by (force simp: those_None_iff image_iff)
  have zeros: "map (\<lambda>i. 0::int) ?files = replicate (length ?files) 0"
    by (simp add: map_replicate_const)
  have rest': "str_split_max '': '' (Suc 0) (files_string @ CHR '':'' # CHR '' '' # title)
      = [files_string, title]"
    using rest by simp
  show ?thesis
    unfolding process_taskline_def fields
    using ne those zeros by (simp add: Let_def rest')
qed

lemma recovery_pieces:
  assumes sp: "CHR '' '' \<notin> set commit_id" "CHR '' '' \<notin> set issue_id" "CHR '' '' \<notin> set isodate"
    and junk: "CHR '':'' \<notin> set junk"
    and shape: "\<forall>p \<in> set pieces. well_shaped p"
    and ne: "junk @ manifest_text pieces \<noteq> '':''"
    and bad: "\<exists>p \<in> set pieces. py_int u (snd p) = None"
  shows "process_taskline u
           (commit_id @ '' '' @ issue_id @ '' '' @ isodate @ '' '' @ junk @ manifest_text pieces
              @ '': '' @ title)
         = Inr ((issue_id, isodate, map piece_name pieces, replicate (length pieces) 0),
                [commit_id @ '' '' @ issue_id @ '' '' @ isodate @ '' '' @ junk @ manifest_text pieces
                   @ '': '' @ title])"
proof -
  let ?ts = "map piece_text pieces"
  let ?fs = "junk @ manifest_text pieces"
  have "str_split '':'' ?fs = junk # ?ts"
    unfolding manifest_text_concat using junk shape
    by (intro split_pieces) (auto simp: well_shaped_def)
  then have entries: "tl (str_split '':'' ?fs) = ?ts" by simp
  have nosep: "\<not> sublist '': '' ?fs"
    unfolding manifest_text_concat using junk shape
    by (intro pieces_no_separator) (auto simp: well_shaped_def)
  have names: "map entry_name ?ts = map piece_name pieces"
    using shape by (auto simp: well_shaped_def entry_name_piece)
  have sizes: "\<exists>f \<in> set ?ts. entry_size u f = None"
  proof -
    from bad obtain p where p: "p \<in> set pieces" "py_int u (snd p) = None" by blast
    with shape have "entry_size u (piece_text p) = None"
      by (simp add: well_shaped_def entry_size_piece)
    with p(1) show ?thesis by auto
  qed
  have "process_taskline u
           (commit_id @ '' '' @ issue_id @ '' '' @ isodate @ '' '' @ ?fs @ '': '' @ title)
         = Inr ((issue_id, isodate, map entry_name (tl (str_split '':'' ?fs)),
                 replicate (length (tl (str_split '':'' ?fs))) 0),
                [commit_id @ '' '' @ issue_id @ '' '' @ isodate @ '' '' @ ?fs @ '': '' @ title])"
  proof (rule recovery_general [OF sp nosep ne])
    show "\<exists>f \<in> set (tl (str_split '':'' ?fs)). entry_size u f = None"
      using sizes by (simp only: entries)
  qed
  then show ?thesis
    unfolding entries names by simp
qed

lemma formatted_line_sizes:
  "format_todo_entry commit_id issue isodate message (Some files) (Some sizes) =
     commit_id @ '' '' @ issue @ '' '' @ isodate @ '' '' @
       ('':'' @ str_join '':'' (map (\<lambda>(f, s). str_join '','' [f, s]) (zip files sizes)))
       @ '': '' @ replace_newlines message"
  by (simp add: format_todo_entry_def)

lemma formatted_line_files:
  "format_todo_entry commit_id issue isodate message (Some files) None =
     commit_id @ '' '' @ issue @ '' '' @ isodate @ '' '' @
       ('':'' @ str_join '':'' files) @ '': '' @ replace_newlines message"
  by (simp add: format_todo_entry_def)

lemma unformatted_line:
  "format_todo_entry commit_id issue isodate message None sizes =
     commit_id @ '' '' @ issue @ '' '' @ isodate @ '' '' @ replace_newlines message"
  by (simp add: format_todo_entry_def)

lemma recovery_formatted:
  assumes sp: "CHR '' '' \<notin> set commit_id" "CHR '' '' \<notin> set issue_id" "CHR '' '' \<notin> set isodate"
    and len: "length sizes = length files"
    and names: "\<forall>f \<in> set files. CHR '':'' \<notin> set f \<and> \<not> prefix '' '' f"
    and fields: "\<forall>s \<in> set sizes. CHR '':'' \<notin> set s \<and> CHR '','' \<notin> set s"
    and bad: "\<exists>s \<in> set sizes. py_int u s = None"
  shows "process_taskline u
           (format_todo_entry commit_id issue_id isodate message (Some files) (Some sizes))
         = Inr ((issue_id, isodate, files, replicate (length files) 0),
                [format_todo_entry commit_id issue_id isodate message (Some files) (Some sizes)])"
proof -
  let ?pieces = "map (\<lambda>(f, s). (Some f, s)) (zip files sizes)"
  let ?es = "map (\<lambda>(f, s). str_join '','' [f, s]) (zip files sizes)"
  from bad len have ne: "zip files sizes \<noteq> []" by (cases files; cases sizes) auto
  have texts: "map piece_text ?pieces = ?es"
    by (auto simp: piece_text_def)
  have pnames: "map piece_name ?pieces = files"
  proof -
    have "map piece_name ?pieces = map fst (zip files sizes)"
      by (auto simp: piece_name_def)
    with len show ?thesis by simp
  qed
  have manifest: "'':'' @ str_join '':'' ?es = [] @ manifest_text ?pieces"
    unfolding manifest_text_concat texts using ne by (simp add: join_concat)
  have shape: "\<forall>p \<in> set ?pieces. well_shaped p"
  proof
    fix p assume "p \<in> set ?pieces"
    then obtain f s where fs: "(f, s) \<in> set (zip files sizes)" and p: "p = (Some f, s)" by auto
    from fs have "f \<in> set files" "s \<in> set sizes" by (auto dest: set_zip_leftD set_zip_rightD)
    with names fields have "CHR '':'' \<notin> set f" "\<not> prefix '' '' f" "CHR '':'' \<notin> set s"
      "CHR '','' \<notin> set s" by auto
    with p show "well_shaped p"
      by (cases f) (auto simp: well_shaped_def piece_text_def)
  qed
  have nc: "[] @ manifest_text ?pieces \<noteq> '':''"
  proof -
    from ne obtain f s r where "zip files sizes = (f, s) # r" by (cases "zip files sizes") auto
    then show ?thesis by (simp add: manifest_text_def piece_text_def)
  qed
  have pbad: "\<exists>p \<in> set ?pieces. py_int u (snd p) = None"
  proof -
    from bad obtain s where s: "s \<in> set sizes" "py_int u s = None" by blast
    with len obtain f where "(f, s) \<in> set (zip files sizes)"
      by (metis in_set_impl_in_set_zip2)
    then have "(Some f, s) \<in> set ?pieces" by force
    with s(2) show ?thesis by force
  qed
  have "process_taskline u
           (commit_id @ '' '' @ issue_id @ '' '' @ isodate @ '' '' @ [] @ manifest_text ?pieces
              @ '': '' @ replace_newlines message)
         = Inr ((issue_id, isodate, map piece_name ?pieces, replicate (length ?pieces) 0),
                [commit_id @ '' '' @ issue_id @ '' '' @ isodate @ '' '' @ [] @ manifest_text ?pieces
                   @ '': '' @ replace_newlines message])"
    using sp _ shape nc pbad by (rule recovery_pieces) simp
  moreover have "length ?pieces = length files" using len by simp
  ultimately show ?thesis
    unfolding formatted_line_sizes manifest pnames by simp
qed

text \<open>
  Every manifest, that is every text without \<open>": "\<close>, is a colon-free text followed by
  a run of well-shaped entries: the grammar leaves no manifest out.
\<close>

lemma split_from_free:
  "p \<in> set (split_from [c] n cur s) \<Longrightarrow> length s \<le> n \<Longrightarrow> c \<notin> set cur \<Longrightarrow> c \<notin> set p"
proof (induction s arbitrary: n cur)
  case Nil
  then show ?case by (cases n) auto
next
  case (Cons x s)
  then obtain n' where n: "n = Suc n'" by (cases n) auto
  show ?case
  proof (cases "x = c")
    case True
    with Cons.prems n have "p = cur \<or> p \<in> set (split_from [c] n' [] s)" by auto
    then show ?thesis
    proof
      assume "p = cur"
      with Cons.prems show ?thesis by simp
    next
      assume "p \<in> set (split_from [c] n' [] s)"
      moreover from Cons.prems n have "length s \<le> n'" by simp
      ultimately show ?thesis using Cons.IH by force
    qed
  next
    case False
    with Cons.prems n have "p \<in> set (split_from [c] n (cur @ [x]) s)" by auto
    moreover from Cons.prems have "length s \<le> n" by simp
    moreover from False Cons.prems have "c \<notin> set (cur @ [x])" by auto
    ultimately show ?thesis using Cons.IH by blast
  qed
qed

lemma join_as_concat: "str_join [c] (a # ts) = a @ concat (map (\<lambda>t. c # t) ts)"
proof (induction ts arbitrary: a)
  case Nil
  then show ?case by simp
next
  case (Cons t ts)
  have "str_join [c] (a # t # ts) = a @ [c] @ str_join [c] (t # ts)" by simp
  with Cons show ?case by simp
qed

lemma piece_exists:
  "CHR '':'' \<notin> set t \<Longrightarrow> \<not> prefix '' '' t \<Longrightarrow> \<exists>p. piece_text p = t \<and> well_shaped p"
proof (cases "CHR '','' \<in> set t")
  case True
  assume t: "CHR '':'' \<notin> set t" "\<not> prefix '' '' t"
  from True obtain n s where ns: "t = n @ CHR '','' # s" "CHR '','' \<notin> set s"
    by (auto dest: split_list_last)
  with t have "piece_text (Some n, s) = t \<and> well_shaped (Some n, s)"
    by (simp add: piece_text_def well_shaped_def)
  then show ?thesis by blast
next
  case False
  assume t: "CHR '':'' \<notin> set t" "\<not> prefix '' '' t"
  with False have "piece_text (None, t) = t \<and> well_shaped (None, t)"
    by (simp add: piece_text_def well_shaped_def)
  then show ?thesis by blast
qed

lemma pieces_exist:
  "\<forall>t \<in> set ts. CHR '':'' \<notin> set t \<and> \<not> prefix '' '' t \<Longrightarrow>
   \<exists>pieces. map piece_text pieces = ts \<and> (\<forall>p \<in> set pieces. well_shaped p)"
proof (induction ts)
  case Nil
  then show ?case by simp
next
  case (Cons t ts)
  then obtain pieces where ps: "map piece_text pieces = ts" "\<forall>p \<in> set pieces. well_shaped p"
    by auto
  from Cons.prems obtain p where p: "piece_text p = t" "well_shaped p"
    using piece_exists [of t] by auto
  with ps have "map piece_text (p # pieces) = t # ts \<and> (\<forall>q \<in> set (p # pieces). well_shaped q)"
    by simp
  then show ?case by (rule exI)
qed

lemma no_space_after_colon:
  "\<not> sublist '': '' (junk @ concat (map (\<lambda>t. CHR '':'' # t) ts)) \<Longrightarrow> t \<in> set ts \<Longrightarrow>
   \<not> prefix '' '' t"
proof
  assume no: "\<not> sublist '': '' (junk @ concat (map (\<lambda>t. CHR '':'' # t) ts))"
    and t: "t \<in> set ts" and sp: "prefix '' '' t"
  from t obtain xs ys where ts: "ts = xs @ t # ys" by (auto dest: split_list)
  from sp obtain t' where t': "t = CHR '' '' # t'" by (cases t) auto
  have "junk @ concat (map (\<lambda>t. CHR '':'' # t) ts)
      = (junk @ concat (map (\<lambda>t. CHR '':'' # t) xs)) @ '': '' @ (t' @ concat (map (\<lambda>t. CHR '':'' # t) ys))"
    by (simp add: ts t')
  then have "sublist '': '' (junk @ concat (map (\<lambda>t. CHR '':'' # t) ts))"
    by (simp only: sublist_appendI)
  with no show False ..
qed

lemma manifest_decomposition:
  assumes "\<not> sublist '': '' files_string"
  shows "\<exists>junk pieces. files_string = junk @ manifest_text pieces \<and> CHR '':'' \<notin> set junk
           \<and> (\<forall>p \<in> set pieces. well_shaped p)"
proof -
  obtain junk ts where split: "str_split '':'' files_string = junk # ts"
    using split_from_nonempty [of "'':''" "length files_string" "[]" files_string]
    by (cases "str_split '':'' files_string") (auto simp: str_split_def)
  have free: "CHR '':'' \<notin> set p" if "p \<in> set (junk # ts)" for p
    using that split_from_free [of p "CHR '':''" "length files_string" "[]" files_string]
    by (simp add: split [symmetric] str_split_def)
  have "str_join '':'' (str_split '':'' files_string) = files_string" by (rule join_split)
  then have fs: "files_string = junk @ concat (map (\<lambda>t. CHR '':'' # t) ts)"
    by (simp only: split join_as_concat)
  have "\<forall>t \<in> set ts. CHR '':'' \<notin> set t \<and> \<not> prefix '' '' t"
  proof
    fix t assume t: "t \<in> set ts"
    from assms have "\<not> sublist '': '' (junk @ concat (map (\<lambda>t. CHR '':'' # t) ts))"
      unfolding fs [symmetric] .
    then have "\<not> prefix '' '' t" using t by (rule no_space_after_colon)
    with free t show "CHR '':'' \<notin> set t \<and> \<not> prefix '' '' t" by simp
  qed
  then obtain pieces where ps: "map piece_text pieces = ts" "\<forall>p \<in> set pieces. well_shaped p"
    using pieces_exist by blast
  from fs ps(1) have "files_string = junk @ manifest_text pieces"
    by (simp add: manifest_text_concat)
  with free ps(2) show ?thesis by auto
qed

text \<open>
  Claim C6, amended. A line \<open>commit issue date manifest: title\<close> (three fields without
  spaces, the manifest ending at the first \<open>": "\<close>) whose manifest has an entry with a
  last comma component that fails integer parsing does not fail: \<^verbatim>\<open>process_taskline\<close>
  returns the issue and the date, one file name for every colon-separated entry of the
  manifest (the text before the entry's last comma, the empty name for an entry without
  comma), the size 0 for every entry, and logs the line once. The manifest is given by
  its entries (\<open>manifest_text\<close>; by \<open>manifest_decomposition\<close> every manifest is of this
  form); the manifest \<open>":"\<close> alone is the empty manifest and is left out. The list
  returned is the list of files written by \<^verbatim>\<open>format_todo_entry\<close> when no written file name
  holds a colon or begins with a space, and the size fields hold no colon and no comma.
\<close>

theorem malformed_size_recovery:
  "(CHR '' '' \<notin> set commit_id \<and> CHR '' '' \<notin> set issue_id \<and> CHR '' '' \<notin> set isodate
      \<and> CHR '':'' \<notin> set junk \<and> (\<forall>p \<in> set pieces. well_shaped p)
      \<and> junk @ manifest_text pieces \<noteq> '':''
      \<and> (\<exists>p \<in> set pieces. py_int unicode_int (snd p) = None)
    \<longrightarrow> process_taskline unicode_int
          (commit_id @ '' '' @ issue_id @ '' '' @ isodate @ '' '' @ junk @ manifest_text pieces
             @ '': '' @ title)
        = Inr ((issue_id, isodate, map piece_name pieces, replicate (length pieces) 0),
               [commit_id @ '' '' @ issue_id @ '' '' @ isodate @ '' '' @ junk @ manifest_text pieces
                  @ '': '' @ title]))
   \<and> (CHR '' '' \<notin> set commit_id \<and> CHR '' '' \<notin> set issue_id \<and> CHR '' '' \<notin> set isodate
      \<and> length sizes = length files
      \<and> (\<forall>f \<in> set files. CHR '':'' \<notin> set f \<and> \<not> prefix '' '' f)
      \<and> (\<forall>s \<in> set sizes. CHR '':'' \<notin> set s \<and> CHR '','' \<notin> set s)
      \<and> (\<exists>s \<in> set sizes. py_int unicode_int s = None)
    \<longrightarrow> process_taskline unicode_int
          (format_todo_entry commit_id issue_id isodate message (Some files) (Some sizes))
        = Inr ((issue_id, isodate, files, replicate (length files) 0),
               [format_todo_entry commit_id issue_id isodate message (Some files) (Some sizes)]))"
  using recovery_pieces [of commit_id issue_id isodate junk pieces unicode_int title]
    recovery_formatted [of commit_id issue_id isodate sizes files unicode_int message]
  by blast

text \<open>
  Witness for C6: a line whose first size is \<open>5\<close> after the unit separator 0x1F, which
  \<^verbatim>\<open>int\<close> does not skip, and a written line whose first size is \<open>x\<close>.
\<close>

theorem malformed_size_recovery_witness:
  "process_taskline ascii_only (''c1 FOO-1 2018-03-12 :A,'' @ [CHR 0x1F] @ ''5:B,3: t'')
     = Inr ((''FOO-1'', ''2018-03-12'', [''A'', ''B''], [0, 0]),
            [''c1 FOO-1 2018-03-12 :A,'' @ [CHR 0x1F] @ ''5:B,3: t''])
   \<and> process_taskline ascii_only
       (format_todo_entry ''c1'' ''FOO-1'' ''2018-03-12'' ''t'' (Some [''A'', ''B''])
          (Some [''x'', ''3'']))
     = Inr ((''FOO-1'', ''2018-03-12'', [''A'', ''B''], [0, 0]),
            [''c1 FOO-1 2018-03-12 :A,x:B,3: t''])"
proof -
  let ?pieces = "[(Some ''A'', [CHR 0x1F] @ ''5''), (Some ''B'', ''3'')]"
  have h1: "CHR '' '' \<notin> set ''c1'' \<and> CHR '' '' \<notin> set ''FOO-1'' \<and> CHR '' '' \<notin> set ''2018-03-12''
      \<and> CHR '':'' \<notin> set [] \<and> (\<forall>p \<in> set ?pieces. well_shaped p)
      \<and> [] @ manifest_text ?pieces \<noteq> '':''
      \<and> (\<exists>p \<in> set ?pieces. py_int ascii_only (snd p) = None)"
    by (simp add: well_shaped_def piece_text_def manifest_text_def int_defs)
  have h2: "CHR '' '' \<notin> set ''c1'' \<and> CHR '' '' \<notin> set ''FOO-1'' \<and> CHR '' '' \<notin> set ''2018-03-12''
      \<and> length [''x'', ''3''] = length [''A'', ''B'']
      \<and> (\<forall>f \<in> set [''A'', ''B'']. CHR '':'' \<notin> set f \<and> \<not> prefix '' '' f)
      \<and> (\<forall>s \<in> set [''x'', ''3'']. CHR '':'' \<notin> set s \<and> CHR '','' \<notin> set s)
      \<and> (\<exists>s \<in> set [''x'', ''3'']. py_int ascii_only s = None)"
    by (simp add: int_defs)
  from h1 h2
    malformed_size_recovery [of "''c1''" "''FOO-1''" "''2018-03-12''" "[]" ?pieces ascii_only
      "''t''" "[''x'', ''3'']" "[''A'', ''B'']" "''t''"]
  have "process_taskline ascii_only
          (''c1'' @ '' '' @ ''FOO-1'' @ '' '' @ ''2018-03-12'' @ '' '' @ [] @ manifest_text ?pieces
             @ '': '' @ ''t'')
        = Inr ((''FOO-1'', ''2018-03-12'', map piece_name ?pieces, replicate (length ?pieces) 0),
               [''c1'' @ '' '' @ ''FOO-1'' @ '' '' @ ''2018-03-12'' @ '' '' @ [] @ manifest_text ?pieces
                  @ '': '' @ ''t''])"
    and "process_taskline ascii_only
          (format_todo_entry ''c1'' ''FOO-1'' ''2018-03-12'' ''t'' (Some [''A'', ''B''])
             (Some [''x'', ''3'']))
        = Inr ((''FOO-1'', ''2018-03-12'', [''A'', ''B''], replicate (length [''A'', ''B'']) 0),
               [format_todo_entry ''c1'' ''FOO-1'' ''2018-03-12'' ''t'' (Some [''A'', ''B''])
                  (Some [''x'', ''3''])])"
    by blast+
  then show ?thesis
    by (simp add: manifest_text_def piece_text_def piece_name_def format_todo_entry_def
          replace_newlines_def)
qed

text \<open>
  Claim C6 as stated fails when a file name holds a colon, the case the specification
  names: \<^verbatim>\<open>format_todo_entry\<close> writes the files \<open>dir/a:b.txt\<close> (size 3) and \<open>c\<close> (size 4) as
  the line \<open>c I d :dir/a:b.txt,3:c,4: t\<close>, and \<^verbatim>\<open>process_taskline\<close> returns for it the
  three files \<open>""\<close>, \<open>b.txt\<close> and \<open>c\<close>, not the two files of the line.
\<close>

theorem stray_colon_file_list:
  "format_todo_entry ''c'' ''I'' ''d'' ''t'' (Some [''dir/a:b.txt'', ''c'']) (Some [''3'', ''4''])
     = ''c I d :dir/a:b.txt,3:c,4: t''
   \<and> process_taskline ascii_only ''c I d :dir/a:b.txt,3:c,4: t''
     = Inr ((''I'', ''d'', ['''', ''b.txt'', ''c''], [0, 0, 0]), [''c I d :dir/a:b.txt,3:c,4: t''])"
  by (simp add: taskline_defs format_todo_entry_def replace_newlines_def)

lemma accepted_with_separator:
  assumes sp: "CHR '' '' \<notin> set commit_id" "CHR '' '' \<notin> set issue_id" "CHR '' '' \<notin> set isodate"
    and sep: "sublist '': '' rest"
  shows "\<exists>files sizes log.
           process_taskline u (commit_id @ '' '' @ issue_id @ '' '' @ isodate @ '' '' @ rest)
             = Inr ((issue_id, isodate, files, sizes), log)
           \<and> length sizes = length files"
proof -
  from sep obtain fs t where rest: "rest = fs @ '': '' @ t" and nosep: "\<not> sublist '': '' fs"
    using first_colon_space by blast
  have fields: "str_split_max '' '' 3 (commit_id @ '' '' @ issue_id @ '' '' @ isodate @ '' '' @ rest)
      = [commit_id, issue_id, isodate, rest]"
    using sp by (rule split_fields)
  have "str_split_max '': '' 1 rest = [fs, t]"
    unfolding rest using nosep by (rule split_rest_present)
  then have split: "str_split_max '': '' (Suc 0) rest = [fs, t]"
    by simp
  show ?thesis
  proof (cases "fs = '':''")
    case True
    then show ?thesis
      unfolding process_taskline_def fields by (simp add: split)
  next
    case False
    show ?thesis
    proof (cases "those (map (entry_size u) (tl (str_split '':'' fs)))")
      case None
      with False show ?thesis
        unfolding process_taskline_def fields by (simp add: split Let_def)
    next
      case (Some sizes)
      then have "length sizes = length (tl (str_split '':'' fs))"
        using those_length by fastforce
      with False Some show ?thesis
        unfolding process_taskline_def fields by (simp add: split Let_def)
    qed
  qed
qed

lemma rejected_without_separator:
  assumes sp: "CHR '' '' \<notin> set commit_id" "CHR '' '' \<notin> set issue_id" "CHR '' '' \<notin> set isodate"
    and sep: "\<not> sublist '': '' rest"
  shows "process_taskline u (commit_id @ '' '' @ issue_id @ '' '' @ isodate @ '' '' @ rest)
           = Inl ValueError"
proof -
  have fields: "str_split_max '' '' 3 (commit_id @ '' '' @ issue_id @ '' '' @ isodate @ '' '' @ rest)
      = [commit_id, issue_id, isodate, rest]"
    using sp by (rule split_fields)
  have "str_split_max '': '' 1 rest = [rest]"
    using sep by (rule split_rest_absent)
  then have split: "str_split_max '': '' (Suc 0) rest = [rest]"
    by simp
  show ?thesis
    unfolding process_taskline_def fields by (simp add: split)
qed

lemma empty_without_colon:
  assumes sp: "CHR '' '' \<notin> set commit_id" "CHR '' '' \<notin> set issue_id" "CHR '' '' \<notin> set isodate"
    and head: "CHR '':'' \<notin> set head"
  shows "process_taskline u
           (commit_id @ '' '' @ issue_id @ '' '' @ isodate @ '' '' @ head @ '': '' @ tail)
           = Inr ((issue_id, isodate, [], []), [])"
proof -
  have fields: "str_split_max '' '' 3
      (commit_id @ '' '' @ issue_id @ '' '' @ isodate @ '' '' @ head @ '': '' @ tail)
      = [commit_id, issue_id, isodate, head @ '': '' @ tail]"
    using sp by (rule split_fields)
  have "\<not> sublist '': '' head"
    using head by (rule colon_free_not_sublist)
  then have "str_split_max '': '' 1 (head @ '': '' @ tail) = [head, tail]"
    by (rule split_rest_present)
  then have split: "str_split_max '': '' (Suc 0) (head @ CHR '':'' # CHR '' '' # tail) = [head, tail]"
    by simp
  have entries: "str_split '':'' head = [head]"
    using head by (rule str_split_absent)
  from head have "head \<noteq> '':''" by auto
  then show ?thesis
    unfolding process_taskline_def fields by (simp add: split entries Let_def)
qed

text \<open>
  Claim C7, amended. \<^verbatim>\<open>process_taskline\<close> has no test on the fourth field: it needs the
  separator \<open>": "\<close> after the third field. For a line with three leading fields without
  spaces: if the remainder holds \<open>": "\<close> the line is accepted, with as many sizes as
  files; if it does not, the line is rejected with \<^verbatim>\<open>ValueError\<close>; if no colon
  stands before the first \<open>": "\<close> (so the fourth field does not begin with a colon) the
  file list and the size list are empty. Every line that \<^verbatim>\<open>format_todo_entry\<close> writes
  with a manifest (with or without sizes) is accepted; a line it writes without manifest
  is rejected when its message holds no \<open>": "\<close>.
\<close>

theorem process_taskline_needs_separator:
  "CHR '' '' \<notin> set commit_id \<and> CHR '' '' \<notin> set issue_id \<and> CHR '' '' \<notin> set isodate \<longrightarrow>
     (sublist '': '' rest \<longrightarrow>
        (\<exists>files sizes log.
           process_taskline unicode_int
               (commit_id @ '' '' @ issue_id @ '' '' @ isodate @ '' '' @ rest)
             = Inr ((issue_id, isodate, files, sizes), log)
           \<and> length sizes = length files))
   \<and> (\<not> sublist '': '' rest \<longrightarrow>
        process_taskline unicode_int
            (commit_id @ '' '' @ issue_id @ '' '' @ isodate @ '' '' @ rest)
          = Inl ValueError)
   \<and> (CHR '':'' \<notin> set head \<longrightarrow>
        process_taskline unicode_int
          (commit_id @ '' '' @ issue_id @ '' '' @ isodate @ '' '' @ head @ '': '' @ tail)
          = Inr ((issue_id, isodate, [], []), []))
   \<and> (\<exists>files sizes log.
        process_taskline unicode_int
            (format_todo_entry commit_id issue_id isodate message (Some written) written_sizes)
          = Inr ((issue_id, isodate, files, sizes), log)
        \<and> length sizes = length files)
   \<and> (\<not> sublist '': '' (replace_newlines message) \<longrightarrow>
        process_taskline unicode_int
            (format_todo_entry commit_id issue_id isodate message None written_sizes)
          = Inl ValueError)"
proof (intro impI conjI)
  assume "CHR '' '' \<notin> set commit_id \<and> CHR '' '' \<notin> set issue_id \<and> CHR '' '' \<notin> set isodate"
  then have sp: "CHR '' '' \<notin> set commit_id" "CHR '' '' \<notin> set issue_id" "CHR '' '' \<notin> set isodate"
    by simp_all
  {
    assume "sublist '': '' rest"
    with sp show "\<exists>files sizes log.
           process_taskline unicode_int
               (commit_id @ '' '' @ issue_id @ '' '' @ isodate @ '' '' @ rest)
             = Inr ((issue_id, isodate, files, sizes), log)
           \<and> length sizes = length files"
      by (rule accepted_with_separator)
  next
    assume "\<not> sublist '': '' rest"
    with sp show "process_taskline unicode_int
            (commit_id @ '' '' @ issue_id @ '' '' @ isodate @ '' '' @ rest)
          = Inl ValueError"
      by (rule rejected_without_separator)
  next
    assume "CHR '':'' \<notin> set head"
    with sp show "process_taskline unicode_int
          (commit_id @ '' '' @ issue_id @ '' '' @ isodate @ '' '' @ head @ '': '' @ tail)
          = Inr ((issue_id, isodate, [], []), [])"
      by (rule empty_without_colon)
  next
    have "\<exists>m. format_todo_entry commit_id issue_id isodate message (Some written) written_sizes
        = commit_id @ '' '' @ issue_id @ '' '' @ isodate @ '' '' @ (m @ '': '' @ replace_newlines message)"
      by (cases written_sizes) (simp_all add: format_todo_entry_def)
    then obtain m where m: "format_todo_entry commit_id issue_id isodate message (Some written)
        written_sizes
        = commit_id @ '' '' @ issue_id @ '' '' @ isodate @ '' '' @ (m @ '': '' @ replace_newlines message)"
      by blast
    have "sublist '': '' (m @ '': '' @ replace_newlines message)"
      by (rule sublist_appendI)
    from accepted_with_separator [OF sp this]
    show "\<exists>files sizes log.
        process_taskline unicode_int
            (format_todo_entry commit_id issue_id isodate message (Some written) written_sizes)
          = Inr ((issue_id, isodate, files, sizes), log)
        \<and> length sizes = length files"
      unfolding m by blast
  next
    assume "\<not> sublist '': '' (replace_newlines message)"
    with sp show "process_taskline unicode_int
            (format_todo_entry commit_id issue_id isodate message None written_sizes)
          = Inl ValueError"
      unfolding unformatted_line by (rule rejected_without_separator)
  }
qed

text \<open>Witness for C7, amended.\<close>

theorem process_taskline_needs_separator_witness:
  "process_taskline ascii_only (''12345 TEST-123 2018-08-12 TEST-123 foo'' @ [CHR 0x0A])
     = Inl ValueError
   \<and> process_taskline ascii_only ''12345 TEST-123 2018-08-12 Fix: the bug''
       = Inr ((''TEST-123'', ''2018-08-12'', [], []), [])
   \<and> process_taskline ascii_only (format_todo_entry ''12345'' ''TEST-123'' ''2018-08-12''
        (''TEST-123 foo'' @ [CHR 0x0A]) None None) = Inl ValueError
   \<and> (\<exists>files sizes log. process_taskline ascii_only ''12345 TEST-123 2018-08-12 Fix: the bug''
        = Inr ((''TEST-123'', ''2018-08-12'', files, sizes), log) \<and> length sizes = length files)"
proof -
  have sp: "CHR '' '' \<notin> set ''12345'' \<and> CHR '' '' \<notin> set ''TEST-123'' \<and> CHR '' '' \<notin> set ''2018-08-12''"
    by simp
  have n1: "\<not> sublist '': '' (''TEST-123 foo'' @ [CHR 0x0A])"
    by (simp add: sublist_Cons_right)
  have n2: "\<not> sublist '': '' (replace_newlines (''TEST-123 foo'' @ [CHR 0x0A]))"
    by (simp add: sublist_Cons_right replace_newlines_def)
  have y: "sublist '': '' (''Fix'' @ '': '' @ ''the bug'')"
    by (rule sublist_appendI)
  have c: "CHR '':'' \<notin> set ''Fix''"
    by simp
  from sp n1 n2
    process_taskline_needs_separator [of "''12345''" "''TEST-123''" "''2018-08-12''"
      "''TEST-123 foo'' @ [CHR 0x0A]" ascii_only "''Fix''" "''the bug''"
      "''TEST-123 foo'' @ [CHR 0x0A]" "[]" None]
  have a: "process_taskline ascii_only (''12345'' @ '' '' @ ''TEST-123'' @ '' '' @ ''2018-08-12'' @ '' '' @
              (''TEST-123 foo'' @ [CHR 0x0A])) = Inl ValueError"
    and b: "process_taskline ascii_only (format_todo_entry ''12345'' ''TEST-123'' ''2018-08-12''
        (''TEST-123 foo'' @ [CHR 0x0A]) None None) = Inl ValueError"
    by blast+
  from sp y c
    process_taskline_needs_separator [of "''12345''" "''TEST-123''" "''2018-08-12''"
      "''Fix'' @ '': '' @ ''the bug''" ascii_only "''Fix''" "''the bug''" "[]" "[]" None]
  have d: "process_taskline ascii_only (''12345'' @ '' '' @ ''TEST-123'' @ '' '' @ ''2018-08-12'' @ '' '' @
              ''Fix'' @ '': '' @ ''the bug'') = Inr ((''TEST-123'', ''2018-08-12'', [], []), [])"
    and e: "\<exists>files sizes log.
           process_taskline ascii_only (''12345'' @ '' '' @ ''TEST-123'' @ '' '' @ ''2018-08-12'' @ '' '' @
              (''Fix'' @ '': '' @ ''the bug''))
             = Inr ((''TEST-123'', ''2018-08-12'', files, sizes), log)
           \<and> length sizes = length files"
    by blast+
  from a b d e show ?thesis by simp
qed

text \<open>
  Claim C7 as stated fails: the line \<open>12345 TEST-123 2018-08-12 TEST-123 foo\<close> has no
  manifest and its fourth field does not begin with a colon, and it is rejected with
  \<^verbatim>\<open>ValueError\<close>; the line \<open>12345 TEST-123 2018-08-12 Fix a:b,c: the bug\<close> has no
  manifest either and is returned with the file \<open>b\<close> of size 0.
\<close>

theorem no_manifest_line_rejected:
  "process_taskline ascii_only (''12345 TEST-123 2018-08-12 TEST-123 foo'' @ [CHR 0x0A])
     = Inl ValueError
   \<and> process_taskline ascii_only ''12345 TEST-123 2018-08-12 Fix a:b,c: the bug''
       = Inr ((''TEST-123'', ''2018-08-12'', [''b''], [0]),
              [''12345 TEST-123 2018-08-12 Fix a:b,c: the bug''])"
  by (simp add: taskline_defs)

section \<open>Graph construction: proofs\<close>

subsection \<open>Loops that may raise\<close>

lemma bind_Inr_iff: "bind r f = Inr y \<longleftrightarrow> (\<exists>x. r = Inr x \<and> f x = Inr y)"
  by (cases r) (auto simp: bind_def)

lemma getitem_Inr_iff: "getitem d k = Inr v \<longleftrightarrow> map_of d k = Some v"
  by (auto simp: getitem_def split: option.splits)

lemma foldM_prefix_invariant:
  assumes "foldM f xs s = Inr s'" and "P [] s"
    and "\<And>p x q t t'. xs = p @ x # q \<Longrightarrow> P p t \<Longrightarrow> f x t = Inr t' \<Longrightarrow> P (p @ [x]) t'"
  shows "P xs s'"
  using assms
proof (induction xs arbitrary: s P)
  case Nil
  then show ?case by simp
next
  case (Cons y ys)
  from Cons.prems(1) obtain s1 where s1: "f y s = Inr s1" and rest: "foldM f ys s1 = Inr s'"
    by (auto simp: bind_Inr_iff)
  have start: "P ([] @ [y]) s1"
    using Cons.prems(2) s1 by (intro Cons.prems(3) [of "[]" y ys s s1]) auto
  have "P (y # ys) s'"
  proof (rule Cons.IH [where P = "\<lambda>p. P (y # p)" and s = s1, OF rest])
    show "P [y] s1" using start by simp
  next
    fix p x q t t'
    assume "ys = p @ x # q" "P (y # p) t" "f x t = Inr t'"
    then have "P ((y # p) @ [x]) t'"
      by (intro Cons.prems(3) [of "y # p" x q t t']) auto
    then show "P (y # p @ [x]) t'" by simp
  qed
  then show ?case .
qed

lemma foldM_invariant:
  assumes "foldM f xs s = Inr s'" and "P s"
    and "\<And>x t t'. x \<in> set xs \<Longrightarrow> P t \<Longrightarrow> f x t = Inr t' \<Longrightarrow> P t'"
  shows "P s'"
  using assms(1)
proof (rule foldM_prefix_invariant [where P = "\<lambda>p. P"])
  show "P s" by fact
next
  fix p x q t t'
  assume "xs = p @ x # q" "P t" "f x t = Inr t'"
  then show "P t'" using assms(3) [of x t t'] by simp
qed

lemma foldM_filter:
  "(\<And>x s. \<not> keep x \<Longrightarrow> f x s = Inr s) \<Longrightarrow> foldM f (filter keep xs) s = foldM f xs s"
  by (induction xs arbitrary: s) (auto simp: bind_def split: sum.splits)

subsection \<open>First-seen order\<close>

lemma set_fold_add_new: "set (fold add_new xs seen) = set seen \<union> set xs"
  by (induction xs arbitrary: seen) (auto simp: add_new_def)

lemma fold_add_new_known: "set ys \<subseteq> set seen \<Longrightarrow> fold add_new ys seen = seen"
  by (induction ys arbitrary: seen) (auto simp: add_new_def)

lemma distinct_fold_add_new: "distinct seen \<Longrightarrow> distinct (fold add_new xs seen)"
  by (induction xs arbitrary: seen) (auto simp: add_new_def)

lemma add_new_twice: "add_new x (add_new x seen) = add_new x seen"
  by (simp add: add_new_def)

lemma rounds_first_seen:
  "prefix p files \<Longrightarrow>
   fold add_new (concat (map (\<lambda>f. f # files) p)) seen =
     (if p = [] then seen else fold add_new files seen)"
proof (induction p rule: rev_induct)
  case Nil
  then show ?case by simp
next
  case (snoc f p)
  from snoc.prems have pre: "prefix p files"
    by (metis append_prefixD)
  show ?case
  proof (cases "p = []")
    case True
    with snoc.prems obtain rest where "files = f # rest"
      by (auto simp: prefix_def)
    with True show ?thesis by (simp add: add_new_twice)
  next
    case False
    from snoc.prems have "f \<in> set files"
      by (auto simp: prefix_def)
    then have "set (f # files) \<subseteq> set (fold add_new files seen)"
      by (auto simp: set_fold_add_new)
    then have "fold add_new (f # files) (fold add_new files seen) = fold add_new files seen"
      by (rule fold_add_new_known)
    with False snoc.IH [OF pre] show ?thesis by simp
  qed
qed

subsection \<open>The file index\<close>

lemma index_ok_init: "index_ok init_state"
  by (simp add: index_ok_def init_state_def)

lemma index_ok_unknown:
  "index_ok s \<Longrightarrow> known_files_to_index s f = None \<longleftrightarrow> f \<notin> set (known_files s)"
  unfolding index_ok_def in_set_conv_nth
  by (metis option.distinct(1) option.exhaust)

lemma index_ok_distinct: "index_ok s \<Longrightarrow> distinct (known_files s)"
  unfolding index_ok_def distinct_conv_nth
  by (metis option.inject)

lemma register_edges [simp]: "edges (register_file f s) = edges s"
  by (simp add: register_file_def)

lemma register_weights [simp]: "weights (register_file f s) = weights s"
  by (simp add: register_file_def)

lemma register_known_files:
  "index_ok s \<Longrightarrow> known_files (register_file f s) = add_new f (known_files s)"
  by (simp add: register_file_def add_new_def index_ok_unknown)

lemma register_index_ok:
  assumes "index_ok s"
  shows "index_ok (register_file f s)"
proof (cases "f \<in> set (known_files s)")
  case True
  with assms show ?thesis by (simp add: register_file_def index_ok_unknown)
next
  case False
  then have new: "\<And>i. i < length (known_files s) \<Longrightarrow> known_files s ! i \<noteq> f"
    by (auto simp: in_set_conv_nth)
  from False assms have reg: "register_file f s =
      s\<lparr>known_files_to_index := (known_files_to_index s)(f \<mapsto> length (known_files s)),
        known_files := known_files s @ [f]\<rparr>"
    by (simp add: register_file_def index_ok_unknown)
  show ?thesis
    unfolding reg index_ok_def
  proof (intro allI)
    fix g i
    show "known_files_to_index
            (s\<lparr>known_files_to_index := (known_files_to_index s)(f \<mapsto> length (known_files s)),
               known_files := known_files s @ [f]\<rparr>) g = Some i \<longleftrightarrow>
          i < length (known_files
            (s\<lparr>known_files_to_index := (known_files_to_index s)(f \<mapsto> length (known_files s)),
               known_files := known_files s @ [f]\<rparr>)) \<and>
          known_files
            (s\<lparr>known_files_to_index := (known_files_to_index s)(f \<mapsto> length (known_files s)),
               known_files := known_files s @ [f]\<rparr>) ! i = g"
    proof (cases "g = f")
      case True
      with new show ?thesis
        by (auto simp: nth_append less_Suc_eq)
    next
      case False
      with assms show ?thesis
        by (auto simp: nth_append less_Suc_eq index_ok_def)
    qed
  qed
qed

lemma register_lookup:
  assumes "index_ok s"
  shows "\<exists>i. known_files_to_index (register_file f s) f = Some i"
proof -
  have "f \<in> set (known_files (register_file f s))"
    using assms by (simp add: register_known_files add_new_def)
  with register_index_ok [OF assms, of f] show ?thesis
    using index_ok_unknown by fastforce
qed

lemma update_present_keys:
  "map_of al k = Some v \<Longrightarrow> map fst (AList.update k v' al) = map fst al"
  by (auto simp: update_keys dest!: map_of_SomeD intro: rev_image_eqI)

lemma in_set_updateD:
  "(a, b) \<in> set (AList.update k v al) \<Longrightarrow> (a, b) = (k, v) \<or> (a, b) \<in> set al"
  by (induction al) (auto split: if_splits)

lemma register_prefix: "index_ok s \<Longrightarrow> prefix (known_files s) (known_files (register_file g s))"
  by (simp add: register_known_files add_new_def)

lemma prefix_nth: "prefix xs ys \<Longrightarrow> i < length xs \<Longrightarrow> ys ! i = xs ! i"
  by (auto simp: prefix_def nth_append)

lemma keys_ok_register: "keys_ok s \<Longrightarrow> keys_ok (register_file g s)"
  by (simp add: keys_ok_def)

lemma nodes_ok_register:
  assumes "index_ok s" "nodes_ok F s"
  shows "nodes_ok F (register_file g s)"
proof (cases "g \<in> set (known_files s)")
  case True
  with assms show ?thesis
    by (simp add: nodes_ok_def register_known_files add_new_def)
next
  case False
  with assms(2) have "g \<notin> F" by (auto simp: nodes_ok_def)
  with False assms show ?thesis
    by (auto simp: nodes_ok_def register_known_files add_new_def nth_append less_Suc_eq)
qed

lemma edges_ok_extend:
  assumes "edges_ok R s" "edges s' = edges s" "prefix (known_files s) (known_files s')"
  shows "edges_ok R s'"
proof -
  from assms(3) have len: "length (known_files s) \<le> length (known_files s')"
    by (rule prefix_length_le)
  have nth: "\<And>i. i < length (known_files s) \<Longrightarrow> known_files s' ! i = known_files s ! i"
    using assms(3) by (rule prefix_nth)
  show ?thesis
    unfolding edges_ok_def assms(2)
  proof (clarify, intro conjI ballI)
    fix i ns assume e: "(i, ns) \<in> set (edges s)"
    with assms(1) have i: "i < length (known_files s)"
      by (auto simp: edges_ok_def)
    with len show "i < length (known_files s')" by simp
    fix j assume j: "j \<in> set ns"
    with e assms(1) have jl: "j < length (known_files s)"
      and "\<exists>fs \<in> R. known_files s ! i \<in> set fs \<and> known_files s ! j \<in> set fs"
      by (auto simp: edges_ok_def)
    with len i nth show "j < length (known_files s')"
      and "\<exists>fs \<in> R. known_files s' ! i \<in> set fs \<and> known_files s' ! j \<in> set fs"
      by auto
  qed
qed

lemma edges_ok_register: "index_ok s \<Longrightarrow> edges_ok R s \<Longrightarrow> edges_ok R (register_file g s)"
  by (rule edges_ok_extend [where s = s]) (simp_all add: register_prefix)

lemma graph_inv_register: "graph_inv R F s \<Longrightarrow> graph_inv R F (register_file g s)"
  by (simp add: graph_inv_def register_index_ok keys_ok_register nodes_ok_register
        edges_ok_register)

lemma edges_ok_mono: "edges_ok R s \<Longrightarrow> R \<subseteq> R' \<Longrightarrow> edges_ok R' s"
  unfolding edges_ok_def by (fast)

lemma graph_inv_mono: "graph_inv R F s \<Longrightarrow> R \<subseteq> R' \<Longrightarrow> graph_inv R' F s"
  by (auto simp: graph_inv_def intro: edges_ok_mono)

subsection \<open>The loops over targets, files and issues\<close>

lemma target_step_cases:
  assumes "target_step fidx ei g (s0, ec) = Inr (s', ec')"
  shows "\<exists>gidx. known_files_to_index (register_file g s0) g = Some gidx
     \<and> known_files s' = known_files (register_file g s0)
     \<and> known_files_to_index s' = known_files_to_index (register_file g s0)
     \<and> ((\<exists>v w. map_of (edges s0) fidx = Some v \<and> map_of (weights s0) fidx = Some w
            \<and> edges s' = AList.update fidx (v @ [gidx]) (edges s0)
            \<and> weights s' = AList.update fidx (w @ [1]) (weights s0))
        \<or> (\<exists>w w'. map_of (weights s0) fidx = Some w \<and> edges s' = edges s0
            \<and> weights s' = AList.update fidx w' (weights s0)))"
proof -
  let ?s = "register_file g s0"
  from assms obtain gidx where g: "known_files_to_index ?s g = Some gidx"
    by (auto simp: target_step_def Let_def split: option.splits)
  show ?thesis
  proof (cases "ec gidx = None")
    case True
    with assms g obtain v w where "map_of (edges ?s) fidx = Some v"
      "map_of (weights ?s) fidx = Some w"
      "s' = ?s\<lparr>edges := AList.update fidx (v @ [gidx]) (edges ?s),
                weights := AList.update fidx (w @ [1]) (weights ?s)\<rparr>"
      by (auto simp: target_step_def Let_def bind_def getitem_def
            split: option.splits if_splits)
    with g show ?thesis by auto
  next
    case False
    with assms g obtain w i where "map_of (weights ?s) fidx = Some w"
      "s' = ?s\<lparr>weights := AList.update fidx (w[i := w ! i + 1]) (weights ?s)\<rparr>"
      by (auto simp: target_step_def Let_def bind_def getitem_def
            split: option.splits if_splits)
    with g show ?thesis by auto
  qed
qed

lemma index_ok_cong:
  "index_ok s \<Longrightarrow> known_files s' = known_files s \<Longrightarrow>
   known_files_to_index s' = known_files_to_index s \<Longrightarrow> index_ok s'"
  by (simp add: index_ok_def)

lemma index_ok_nth:
  "index_ok s \<Longrightarrow> known_files_to_index s f = Some i \<Longrightarrow>
   i < length (known_files s) \<and> known_files s ! i = f"
  by (simp add: index_ok_def)

lemma keys_ok_same_keys:
  "keys_ok s \<Longrightarrow> map fst (edges s') = map fst (edges s) \<Longrightarrow>
   map fst (weights s') = map fst (weights s) \<Longrightarrow> keys_ok s'"
  by (simp add: keys_ok_def)

lemma nodes_ok_same_keys:
  assumes "nodes_ok F s" "known_files s' = known_files s" "map fst (edges s') = map fst (edges s)"
  shows "nodes_ok F s'"
proof -
  from assms(3) have "set (map fst (edges s')) = set (map fst (edges s))" by simp
  then have "fst ` set (edges s') = fst ` set (edges s)" by simp
  with assms(1,2) show ?thesis by (simp add: nodes_ok_def)
qed

lemma edges_ok_append_target:
  assumes ok: "edges_ok R s"
    and kf: "known_files s' = known_files s"
    and v: "map_of (edges s) fidx = Some v"
    and e: "edges s' = AList.update fidx (v @ [gidx]) (edges s)"
    and g: "gidx < length (known_files s)"
    and pair: "\<exists>fs \<in> R. known_files s ! fidx \<in> set fs \<and> known_files s ! gidx \<in> set fs"
  shows "edges_ok R s'"
  unfolding edges_ok_def kf e
proof (clarify)
  fix i ns assume "(i, ns) \<in> set (AList.update fidx (v @ [gidx]) (edges s))"
  then have "(i, ns) = (fidx, v @ [gidx]) \<or> (i, ns) \<in> set (edges s)"
    by (rule in_set_updateD)
  then consider "i = fidx" "ns = v @ [gidx]" | "(i, ns) \<in> set (edges s)"
    by blast
  then show "i < length (known_files s) \<and>
       (\<forall>j \<in> set ns. j < length (known_files s) \<and>
           (\<exists>fs \<in> R. known_files s ! i \<in> set fs \<and> known_files s ! j \<in> set fs))"
  proof cases
    case 1
    from v have "(fidx, v) \<in> set (edges s)" by (rule map_of_SomeD)
    with ok have "fidx < length (known_files s)"
      and "\<forall>j \<in> set v. j < length (known_files s) \<and>
           (\<exists>fs \<in> R. known_files s ! fidx \<in> set fs \<and> known_files s ! j \<in> set fs)"
      by (auto simp: edges_ok_def)
    with 1 g pair show ?thesis by auto
  next
    case 2
    with ok show ?thesis by (auto simp: edges_ok_def)
  qed
qed

lemma edges_ok_same_edges:
  "edges_ok R s \<Longrightarrow> known_files s' = known_files s \<Longrightarrow> edges s' = edges s \<Longrightarrow> edges_ok R s'"
  by (simp add: edges_ok_def)

lemma target_step_inv:
  assumes inv: "graph_inv R F s0"
    and f: "fidx < length (known_files s0)" "known_files s0 ! fidx = f"
    and fs: "fs \<in> R" "f \<in> set fs" "g \<in> set fs"
    and step: "target_step fidx ei g (s0, ec) = Inr (s', ec')"
  shows "graph_inv R F s' \<and> fidx < length (known_files s') \<and> known_files s' ! fidx = f
           \<and> known_files s' = add_new g (known_files s0)"
proof -
  let ?s = "register_file g s0"
  from inv have inv_s: "graph_inv R F ?s" by (rule graph_inv_register)
  then have ok: "index_ok ?s" "keys_ok ?s" "nodes_ok F ?s" "edges_ok R ?s"
    by (simp_all add: graph_inv_def)
  from inv have ok0: "index_ok s0" by (simp add: graph_inv_def)
  from target_step_cases [OF step] obtain gidx where
    g: "known_files_to_index ?s g = Some gidx"
    and kf: "known_files s' = known_files ?s"
    and kfi: "known_files_to_index s' = known_files_to_index ?s"
    and cases: "(\<exists>v w. map_of (edges s0) fidx = Some v \<and> map_of (weights s0) fidx = Some w
            \<and> edges s' = AList.update fidx (v @ [gidx]) (edges s0)
            \<and> weights s' = AList.update fidx (w @ [1]) (weights s0))
        \<or> (\<exists>w w'. map_of (weights s0) fidx = Some w \<and> edges s' = edges s0
            \<and> weights s' = AList.update fidx w' (weights s0))"
    by blast
  have pre: "prefix (known_files s0) (known_files ?s)"
    using ok0 by (rule register_prefix)
  have fl: "fidx < length (known_files ?s)"
    using f(1) prefix_length_le [OF pre] by simp
  have fn: "known_files ?s ! fidx = f"
    using prefix_nth [OF pre f(1)] f(2) by simp
  from index_ok_nth [OF ok(1) g] have gl: "gidx < length (known_files ?s)"
    and gn: "known_files ?s ! gidx = g" by simp_all
  have i': "index_ok s'" using ok(1) kf kfi by (rule index_ok_cong)
  have rest: "keys_ok s' \<and> nodes_ok F s' \<and> edges_ok R s'"
    using cases
  proof (elim disjE exE conjE)
    fix v w
    assume v: "map_of (edges s0) fidx = Some v" and w: "map_of (weights s0) fidx = Some w"
      and e: "edges s' = AList.update fidx (v @ [gidx]) (edges s0)"
      and ww: "weights s' = AList.update fidx (w @ [1]) (weights s0)"
    have ke: "map fst (edges s') = map fst (edges ?s)"
      using v e by (simp add: update_present_keys)
    have kw: "map fst (weights s') = map fst (weights ?s)"
      using w ww by (simp add: update_present_keys)
    have "edges_ok R s'"
    proof (rule edges_ok_append_target [OF ok(4) kf _ _ gl])
      show "map_of (edges ?s) fidx = Some v" using v by simp
      show "edges s' = AList.update fidx (v @ [gidx]) (edges ?s)" using e by simp
      show "\<exists>fs \<in> R. known_files ?s ! fidx \<in> set fs \<and> known_files ?s ! gidx \<in> set fs"
        using fs fn gn by auto
    qed
    with keys_ok_same_keys [OF ok(2) ke kw] nodes_ok_same_keys [OF ok(3) kf ke]
    show ?thesis by simp
  next
    fix w w'
    assume w: "map_of (weights s0) fidx = Some w" and e: "edges s' = edges s0"
      and ww: "weights s' = AList.update fidx w' (weights s0)"
    have ke: "map fst (edges s') = map fst (edges ?s)"
      using e by simp
    have kw: "map fst (weights s') = map fst (weights ?s)"
      using w ww by (simp add: update_present_keys)
    have "edges_ok R s'"
      by (rule edges_ok_same_edges [where s = ?s]) (use ok(4) kf e in simp_all)
    with keys_ok_same_keys [OF ok(2) ke kw] nodes_ok_same_keys [OF ok(3) kf ke]
    show ?thesis by simp
  qed
  from i' rest fl fn kf ok0 show ?thesis
    by (simp add: graph_inv_def register_known_files)
qed

lemma nodes_ok_insert:
  assumes ok: "index_ok s" and n: "nodes_ok F s"
    and f: "known_files_to_index s f = Some fidx"
    and kf: "known_files s' = known_files s"
    and sub: "fst ` set (edges s) \<subseteq> fst ` set (edges s')"
    and new: "fidx \<in> fst ` set (edges s')"
  shows "nodes_ok (insert f F) s'"
proof -
  from index_ok_nth [OF ok f] have fl: "fidx < length (known_files s)"
    and fn: "known_files s ! fidx = f" by simp_all
  then have mem: "f \<in> set (known_files s)" by (metis nth_mem)
  have "i \<in> fst ` set (edges s')"
    if i: "i < length (known_files s)" and m: "known_files s ! i \<in> insert f F" for i
  proof (cases "known_files s ! i = f")
    case True
    with i ok have "known_files_to_index s f = Some i" by (simp add: index_ok_def)
    with f new show ?thesis by simp
  next
    case False
    with m have "known_files s ! i \<in> F" by simp
    with n i sub show ?thesis by (auto simp: nodes_ok_def)
  qed
  with n mem show ?thesis
    unfolding nodes_ok_def kf by auto
qed

lemma edges_ok_new_node:
  assumes ok: "edges_ok R s" and kf: "known_files s' = known_files s"
    and e: "edges s' = AList.update fidx [] (edges s)"
    and fl: "fidx < length (known_files s)"
  shows "edges_ok R s'"
  unfolding edges_ok_def kf e
proof (clarify)
  fix i ns assume "(i, ns) \<in> set (AList.update fidx [] (edges s))"
  then have "(i, ns) = (fidx, []) \<or> (i, ns) \<in> set (edges s)"
    by (rule in_set_updateD)
  then consider "i = fidx" "ns = []" | "(i, ns) \<in> set (edges s)"
    by blast
  then show "i < length (known_files s) \<and>
       (\<forall>j \<in> set ns. j < length (known_files s) \<and>
           (\<exists>fs \<in> R. known_files s ! i \<in> set fs \<and> known_files s ! j \<in> set fs))"
  proof cases
    case 1
    with fl show ?thesis by simp
  next
    case 2
    with ok show ?thesis by (auto simp: edges_ok_def)
  qed
qed

lemma file_step_inv:
  assumes inv: "graph_inv R F s0" and fs: "files \<in> R" "f \<in> set files"
    and step: "file_step files f s0 = Inr s'"
  shows "graph_inv R (insert f F) s' \<and>
         known_files s' = fold add_new (f # files) (known_files s0)"
proof -
  let ?s1 = "register_file f s0"
  from inv have ok0: "index_ok s0" by (simp add: graph_inv_def)
  from inv have "graph_inv R F ?s1" by (rule graph_inv_register)
  then have ok1: "index_ok ?s1" "keys_ok ?s1" "nodes_ok F ?s1" "edges_ok R ?s1"
    by (simp_all add: graph_inv_def)
  from step obtain fidx where fidx: "known_files_to_index ?s1 f = Some fidx"
    by (auto simp: file_step_def Let_def split: option.splits)
  define s2 where "s2 = (if map_of (edges ?s1) fidx = None
                    then ?s1\<lparr>edges := AList.update fidx [] (edges ?s1),
                            weights := AList.update fidx [] (weights ?s1)\<rparr>
                    else ?s1)"
  have "bind (getitem (edges s2) fidx) (\<lambda>v.
          bind (getitem (weights s2) fidx) (\<lambda>w.
          bind (foldM (target_step fidx (make_edgeindex v)) files (s2, make_edgecounter v w))
               (\<lambda>(s3, edgecounter). Inr s3))) = Inr s'"
    using step fidx unfolding file_step_def s2_def by (simp add: Let_def)
  then obtain v w t where
    loop: "foldM (target_step fidx (make_edgeindex v)) files (s2, make_edgecounter v w) = Inr t"
    and res: "s' = fst t"
    by (auto simp: bind_Inr_iff split: prod.splits)
  from index_ok_nth [OF ok1(1) fidx] have fl1: "fidx < length (known_files ?s1)"
    and fn1: "known_files ?s1 ! fidx = f" by simp_all
  have kf2: "known_files s2 = known_files ?s1"
    and kfi2: "known_files_to_index s2 = known_files_to_index ?s1"
    by (simp_all add: s2_def)
  have i2: "index_ok s2" using ok1(1) kf2 kfi2 by (rule index_ok_cong)
  have inv2: "graph_inv R (insert f F) s2"
  proof (cases "map_of (edges ?s1) fidx = None")
    case True
    then have s2: "edges s2 = AList.update fidx [] (edges ?s1)"
      "weights s2 = AList.update fidx [] (weights ?s1)"
      by (simp_all add: s2_def)
    from True have notin: "fidx \<notin> set (map fst (edges ?s1))"
      by (simp add: map_of_eq_None_iff)
    with ok1(2) have k: "keys_ok s2"
      by (simp add: keys_ok_def s2 update_keys)
    have n: "nodes_ok (insert f F) s2"
      using ok1(1) ok1(3) fidx kf2
      by (rule nodes_ok_insert) (auto simp: s2 dom_update)
    have e: "edges_ok R s2"
      using ok1(4) kf2 s2(1) fl1 by (rule edges_ok_new_node)
    from i2 k n e show ?thesis by (simp add: graph_inv_def)
  next
    case False
    then have s2: "s2 = ?s1" by (simp only: s2_def if_False)
    from False have "fidx \<in> fst ` set (edges ?s1)"
      by (simp add: map_of_eq_None_iff)
    with ok1(1) ok1(3) fidx have "nodes_ok (insert f F) ?s1"
      by (intro nodes_ok_insert [where s = ?s1 and fidx = fidx]) auto
    with ok1 show ?thesis by (simp add: graph_inv_def s2)
  qed
  define P where "P = (\<lambda>(p::string list) (t :: graph_state \<times> (nat \<rightharpoonup> nat)).
      graph_inv R (insert f F) (fst t) \<and> fidx < length (known_files (fst t))
      \<and> known_files (fst t) ! fidx = f
      \<and> known_files (fst t) = fold add_new p (known_files s2))"
  have "P files t"
    using loop
  proof (rule foldM_prefix_invariant)
    show "P [] (s2, make_edgecounter v w)"
      using inv2 fl1 fn1 kf2 by (simp add: P_def)
  next
    fix p g q and a a' :: "graph_state \<times> (nat \<rightharpoonup> nat)"
    assume split: "files = p @ g # q" and Pa: "P p a"
      and st: "target_step fidx (make_edgeindex v) g a = Inr a'"
    obtain sa ea where a: "a = (sa, ea)" by (cases a)
    obtain sb eb where a': "a' = (sb, eb)" by (cases a')
    from split have g: "g \<in> set files" by simp
    from Pa have Pa': "graph_inv R (insert f F) sa \<and> fidx < length (known_files sa)
      \<and> known_files sa ! fidx = f \<and> known_files sa = fold add_new p (known_files s2)"
      unfolding P_def a fst_conv .
    from Pa' have p1: "graph_inv R (insert f F) sa" by (elim conjE)
    from Pa' have p2: "fidx < length (known_files sa)" by (elim conjE)
    from Pa' have p3: "known_files sa ! fidx = f" by (elim conjE)
    from Pa' have p4: "known_files sa = fold add_new p (known_files s2)" by (elim conjE)
    have T: "graph_inv R (insert f F) sb \<and> fidx < length (known_files sb)
      \<and> known_files sb ! fidx = f \<and> known_files sb = add_new g (known_files sa)"
      by (rule target_step_inv [OF p1 p2 p3 fs(1) fs(2) g st [unfolded a a']])
    have kf: "fold add_new (p @ [g]) (known_files s2) = add_new g (known_files sa)"
      unfolding p4 by simp
    show "P (p @ [g]) a'"
      unfolding P_def a' fst_conv kf by (rule T)
  qed
  then have "graph_inv R (insert f F) s'"
    and "known_files s' = fold add_new files (known_files s2)"
    by (simp_all add: P_def res)
  with kf2 ok0 show ?thesis
    by (simp add: register_known_files)
qed

lemma issue_loop_inv:
  assumes inv: "graph_inv R (set (known_files s0)) s0" and fs: "files \<in> R"
    and run: "foldM (file_step files) files s0 = Inr s'"
  shows "graph_inv R (set (known_files s')) s' \<and>
         known_files s' = fold add_new files (known_files s0)"
proof -
  define P where "P = (\<lambda>p s. graph_inv R (set (known_files s0) \<union> set p) s \<and>
      known_files s = fold add_new (concat (map (\<lambda>f. f # files) p)) (known_files s0))"
  have "P files s'"
    using run
  proof (rule foldM_prefix_invariant)
    show "P [] s0" using inv by (simp add: P_def)
  next
    fix p x q t t'
    assume split: "files = p @ x # q" and Pt: "P p t" and st: "file_step files x t = Inr t'"
    from split have x: "x \<in> set files" by simp
    from Pt have "graph_inv R (set (known_files s0) \<union> set p) t \<and>
      known_files t = fold add_new (concat (map (\<lambda>f. f # files) p)) (known_files s0)"
      unfolding P_def .
    then have g: "graph_inv R (set (known_files s0) \<union> set p) t"
      by (rule conjunct1)
    from Pt have kf: "known_files t = fold add_new (concat (map (\<lambda>f. f # files) p)) (known_files s0)"
      unfolding P_def by (rule conjunct2)
    have T: "graph_inv R (insert x (set (known_files s0) \<union> set p)) t' \<and>
         known_files t' = fold add_new (x # files) (known_files t)"
      by (rule file_step_inv [OF g fs x st])
    have F: "set (known_files s0) \<union> set (p @ [x]) = insert x (set (known_files s0) \<union> set p)"
      by auto
    have K: "fold add_new (concat (map (\<lambda>f. f # files) (p @ [x]))) (known_files s0)
        = fold add_new (x # files) (known_files t)"
      unfolding kf by simp
    show "P (p @ [x]) t'"
      unfolding P_def F K by (rule T)
  qed
  then have both: "graph_inv R (set (known_files s0) \<union> set files) s' \<and>
      known_files s' = fold add_new (concat (map (\<lambda>f. f # files) files)) (known_files s0)"
    unfolding P_def .
  from both have g: "graph_inv R (set (known_files s0) \<union> set files) s'"
    by (rule conjunct1)
  from both have k: "known_files s' = fold add_new (concat (map (\<lambda>f. f # files) files)) (known_files s0)"
    by (rule conjunct2)
  have "fold add_new (concat (map (\<lambda>f. f # files) files)) (known_files s0)
      = (if files = [] then known_files s0 else fold add_new files (known_files s0))"
    by (rule rounds_first_seen) simp
  also have "\<dots> = fold add_new files (known_files s0)"
    by (cases files) simp_all
  finally have k': "known_files s' = fold add_new files (known_files s0)"
    unfolding k .
  then have "set (known_files s') = set (known_files s0) \<union> set files"
    by (simp add: set_fold_add_new)
  with g k' show ?thesis by simp
qed

lemma graph_inv_init: "graph_inv {} {} init_state"
proof -
  have "keys_ok init_state" "nodes_ok {} init_state" "edges_ok {} init_state"
    by (simp_all add: keys_ok_def nodes_ok_def edges_ok_def init_state_def)
  with index_ok_init show ?thesis by (simp add: graph_inv_def)
qed

lemma first_seen_append: "first_seen (xs @ ys) = fold add_new ys (first_seen xs)"
  by (simp add: first_seen_def)

lemma accumulate_inv:
  assumes "accumulate values = Inr s"
  shows "graph_inv (set (filter (\<lambda>files. \<not> length files > 300) values)) (set (known_files s)) s
       \<and> known_files s = first_seen (concat (filter (\<lambda>files. \<not> length files > 300) values))"
proof -
  let ?ok = "\<lambda>files::string list. \<not> length files > 300"
  define P where "P = (\<lambda>p s. graph_inv (set (filter ?ok p)) (set (known_files s)) s \<and>
      known_files s = first_seen (concat (filter ?ok p)))"
  have "P values s"
    using assms [unfolded accumulate_def]
  proof (rule foldM_prefix_invariant)
    show "P [] init_state"
      using graph_inv_init by (simp add: P_def first_seen_def init_state_def)
  next
    fix p x q t t'
    assume Pt: "P p t" and st: "issue_step x t = Inr t'"
    show "P (p @ [x]) t'"
    proof (cases "length x > 300")
      case True
      with st have tt: "t' = t" by (simp add: issue_step_def)
      have fl: "filter ?ok (p @ [x]) = filter ?ok p" using True by simp
      from Pt show ?thesis unfolding P_def tt fl .
    next
      case False
      with st have run: "foldM (file_step x) x t = Inr t'"
        by (simp add: issue_step_def)
      from Pt have "graph_inv (set (filter ?ok p)) (set (known_files t)) t
          \<and> known_files t = first_seen (concat (filter ?ok p))"
        unfolding P_def .
      then have g: "graph_inv (set (filter ?ok p)) (set (known_files t)) t"
        by (rule conjunct1)
      from Pt have kf: "known_files t = first_seen (concat (filter ?ok p))"
        unfolding P_def by (rule conjunct2)
      have R: "set (filter ?ok (p @ [x])) = insert x (set (filter ?ok p))"
        using False by auto
      have g': "graph_inv (insert x (set (filter ?ok p))) (set (known_files t)) t"
        by (rule graph_inv_mono [OF g]) auto
      have T: "graph_inv (insert x (set (filter ?ok p))) (set (known_files t')) t' \<and>
         known_files t' = fold add_new x (known_files t)"
        by (rule issue_loop_inv [OF g' _ run]) simp
      have K: "first_seen (concat (filter ?ok (p @ [x]))) = fold add_new x (known_files t)"
        unfolding kf using False by (simp add: first_seen_append)
      show ?thesis
        unfolding P_def R K by (rule T)
    qed
  qed
  then show ?thesis unfolding P_def .
qed

subsection \<open>Finalization and the result\<close>

lemma finalize_node_props:
  assumes "finalize_node k (es, ws) = Inr (es', ws')"
  shows "map fst es' = map fst es \<and> map fst ws' = map fst ws \<and>
         (\<forall>(i, ns) \<in> set es'. \<exists>ns0. (i, ns0) \<in> set es \<and> set ns = set ns0)"
proof -
  from assms obtain v w w' where v: "map_of es k = Some v" and w: "map_of ws k = Some w"
    and es': "es' = AList.update k (sort v) es" and ws': "ws' = AList.update k w' ws"
    by (auto simp: finalize_node_def Let_def bind_def getitem_def
          split: option.splits if_splits)
  have "\<exists>ns0. (i, ns0) \<in> set es \<and> set ns = set ns0" if "(i, ns) \<in> set es'" for i ns
  proof -
    from that have "(i, ns) = (k, sort v) \<or> (i, ns) \<in> set es"
      unfolding es' by (rule in_set_updateD)
    then show ?thesis
    proof
      assume "(i, ns) = (k, sort v)"
      moreover from v have "(k, v) \<in> set es" by (rule map_of_SomeD)
      ultimately show ?thesis by auto
    next
      assume "(i, ns) \<in> set es"
      then show ?thesis by blast
    qed
  qed
  with v w es' ws' show ?thesis
    by (auto simp: update_present_keys)
qed

lemma finalize_props:
  assumes "finalize s = Inr (kf, es, ws)"
  shows "kf = known_files s \<and> set (map fst es) = set (map fst (edges s))
       \<and> set (map fst ws) = set (map fst (weights s))
       \<and> sorted (map fst es) \<and> sorted (map fst ws)
       \<and> (distinct (map fst (edges s)) \<longrightarrow> distinct (map fst es))
       \<and> (distinct (map fst (weights s)) \<longrightarrow> distinct (map fst ws))
       \<and> (\<forall>(i, ns) \<in> set es. \<exists>ns0. (i, ns0) \<in> set (edges s) \<and> set ns = set ns0)"
proof -
  from assms obtain t where loop: "foldM finalize_node (map fst (edges s)) (edges s, weights s) = Inr t"
    and res: "(kf, es, ws) = (known_files s, sort (fst t), sort (snd t))"
    by (auto simp: finalize_def bind_Inr_iff split: prod.splits)
  define P where "P = (\<lambda>t :: (nat \<times> nat list) list \<times> (nat \<times> nat list) list.
      map fst (fst t) = map fst (edges s) \<and> map fst (snd t) = map fst (weights s) \<and>
      (\<forall>(i, ns) \<in> set (fst t). \<exists>ns0. (i, ns0) \<in> set (edges s) \<and> set ns = set ns0))"
  have "P t"
    using loop
  proof (rule foldM_invariant)
    show "P (edges s, weights s)" by (auto simp: P_def)
  next
    fix k and a a' :: "(nat \<times> nat list) list \<times> (nat \<times> nat list) list"
    assume Pa: "P a" and st: "finalize_node k a = Inr a'"
    obtain ea wa where a: "a = (ea, wa)" by (cases a)
    obtain eb wb where a': "a' = (eb, wb)" by (cases a')
    from finalize_node_props [OF st [unfolded a a']]
    have 1: "map fst eb = map fst ea" and 2: "map fst wb = map fst wa"
      and 3: "\<forall>(i, ns) \<in> set eb. \<exists>ns0. (i, ns0) \<in> set ea \<and> set ns = set ns0"
      by blast+
    from Pa a have 4: "map fst ea = map fst (edges s)" and 5: "map fst wa = map fst (weights s)"
      and 6: "\<forall>(i, ns) \<in> set ea. \<exists>ns0. (i, ns0) \<in> set (edges s) \<and> set ns = set ns0"
      by (simp_all add: P_def)
    have "\<exists>ns0. (i, ns0) \<in> set (edges s) \<and> set ns = set ns0" if "(i, ns) \<in> set eb" for i ns
    proof -
      from 3 that obtain n1 where "(i, n1) \<in> set ea" "set ns = set n1" by blast
      moreover from 6 this(1) obtain n0 where "(i, n0) \<in> set (edges s)" "set n1 = set n0" by blast
      ultimately show ?thesis by auto
    qed
    with 1 2 4 5 show "P a'" by (auto simp: P_def a')
  qed
  then have k1: "map fst (fst t) = map fst (edges s)" and k2: "map fst (snd t) = map fst (weights s)"
    and e: "\<forall>(i, ns) \<in> set (fst t). \<exists>ns0. (i, ns0) \<in> set (edges s) \<and> set ns = set ns0"
    by (simp_all add: P_def)
  from res have r: "kf = known_files s" "es = sort (fst t)" "ws = sort (snd t)" by simp_all
  have s1: "set (map fst es) = set (map fst (edges s))"
    unfolding r k1 [symmetric] by simp
  have s2: "set (map fst ws) = set (map fst (weights s))"
    unfolding r k2 [symmetric] by simp
  have d1: "distinct (map fst (edges s)) \<longrightarrow> distinct (map fst es)"
    unfolding r k1 [symmetric] by (simp add: distinct_fst_sort)
  have d2: "distinct (map fst (weights s)) \<longrightarrow> distinct (map fst ws)"
    unfolding r k2 [symmetric] by (simp add: distinct_fst_sort)
  have e': "\<forall>(i, ns) \<in> set es. \<exists>ns0. (i, ns0) \<in> set (edges s) \<and> set ns = set ns0"
    using e unfolding r by simp
  from r(1) s1 s2 d1 d2 e' sorted_fst_sort [of "fst t"] sorted_fst_sort [of "snd t"] r(2,3)
  show ?thesis by simp
qed

lemma accumulate_filter:
  "accumulate (filter (\<lambda>files. \<not> length files > 300) values) = accumulate values"
  unfolding accumulate_def by (rule foldM_filter) (simp add: issue_step_def)

lemma dense_keys:
  assumes "sorted ks" "distinct ks" "set ks = {0..<n}"
  shows "ks = [0..<n]"
  using assms by (intro sorted_distinct_set_unique) auto

lemma correlate_props:
  assumes "correlate_files_with_each_other aggregated = Inr (kf, es, ws)"
  shows "kf = first_seen (concat (retained aggregated))"
    and "map fst es = [0..<length kf]"
    and "map fst ws = [0..<length kf]"
    and "\<forall>(i, ns) \<in> set es. i < length kf \<and>
           (\<forall>j \<in> set ns. j < length kf \<and>
              (\<exists>files \<in> set (retained aggregated). kf ! i \<in> set files \<and> kf ! j \<in> set files))"
proof -
  from assms obtain s where acc: "accumulate (map snd aggregated) = Inr s"
    and fin: "finalize s = Inr (kf, es, ws)"
    by (auto simp: correlate_files_with_each_other_def bind_Inr_iff)
  from accumulate_inv [OF acc] have inv: "graph_inv (set (retained aggregated)) (set (known_files s)) s"
    and kfs: "known_files s = first_seen (concat (retained aggregated))"
    unfolding retained_def by blast+
  from inv have ok: "index_ok s" "keys_ok s" "nodes_ok (set (known_files s)) s"
    "edges_ok (set (retained aggregated)) s"
    by (simp_all add: graph_inv_def)
  from finalize_props [OF fin] have kf: "kf = known_files s"
    and s1: "set (map fst es) = set (map fst (edges s))"
    and s2: "set (map fst ws) = set (map fst (weights s))"
    and so: "sorted (map fst es)" "sorted (map fst ws)"
    and d1: "distinct (map fst (edges s)) \<longrightarrow> distinct (map fst es)"
    and d2: "distinct (map fst (weights s)) \<longrightarrow> distinct (map fst ws)"
    and e: "\<forall>(i, ns) \<in> set es. \<exists>ns0. (i, ns0) \<in> set (edges s) \<and> set ns = set ns0"
    by blast+
  show "kf = first_seen (concat (retained aggregated))"
    using kf kfs by simp
  have keys: "set (map fst (edges s)) = {0..<length kf}"
  proof (intro set_eqI iffI)
    fix i assume "i \<in> set (map fst (edges s))"
    then obtain ns where "(i, ns) \<in> set (edges s)" by auto
    with ok(4) show "i \<in> {0..<length kf}" by (auto simp: edges_ok_def kf)
  next
    fix i assume "i \<in> {0..<length kf}"
    then have "i < length (known_files s)" by (simp add: kf)
    with ok(3) show "i \<in> set (map fst (edges s))" by (simp add: nodes_ok_def)
  qed
  from ok(2) have dk: "distinct (map fst (edges s))" and wk: "map fst (weights s) = map fst (edges s)"
    by (simp_all add: keys_ok_def)
  show "map fst es = [0..<length kf]"
    using so(1) d1 dk s1 keys by (intro dense_keys) auto
  show "map fst ws = [0..<length kf]"
    using so(2) d2 dk wk s2 keys by (intro dense_keys) auto
  show "\<forall>(i, ns) \<in> set es. i < length kf \<and>
           (\<forall>j \<in> set ns. j < length kf \<and>
              (\<exists>files \<in> set (retained aggregated). kf ! i \<in> set files \<and> kf ! j \<in> set files))"
  proof (clarify)
    fix i ns assume "(i, ns) \<in> set es"
    with e obtain ns0 where n0: "(i, ns0) \<in> set (edges s)" and eq: "set ns = set ns0" by blast
    from ok(4) n0 have "i < length (known_files s) \<and>
        (\<forall>j \<in> set ns0. j < length (known_files s) \<and>
           (\<exists>fs \<in> set (retained aggregated). known_files s ! i \<in> set fs \<and> known_files s ! j \<in> set fs))"
      unfolding edges_ok_def by blast
    then show "i < length kf \<and>
           (\<forall>j \<in> set ns. j < length kf \<and>
              (\<exists>files \<in> set (retained aggregated). kf ! i \<in> set files \<and> kf ! j \<in> set files))"
      unfolding kf eq .
  qed
qed

lemma set_first_seen: "set (first_seen xs) = set xs"
  by (simp add: first_seen_def set_fold_add_new)

lemma distinct_first_seen: "distinct (first_seen xs)"
  by (simp add: first_seen_def distinct_fold_add_new)

lemma correlate_filter:
  "correlate_files_with_each_other (filter (\<lambda>(issue, files). \<not> length files > 300) aggregated)
     = correlate_files_with_each_other aggregated"
proof -
  have "map snd (filter (\<lambda>(issue, files). \<not> length files > 300) aggregated)
      = filter (\<lambda>files. \<not> length files > 300) (map snd aggregated)"
    by (induction aggregated) auto
  then show ?thesis
    by (simp add: correlate_files_with_each_other_def accumulate_filter)
qed

text \<open>
  Claim C4: an issue with more than 300 files is skipped entirely. The result of graph
  construction (value or exception) is the result on the input with the over-threshold
  issues removed; and when the function returns, every registered file name is a file
  of some retained issue, and every edge joins two registered files that occur together
  in some retained issue.
\<close>

theorem over_threshold_issues_ignored:
  "correlate_files_with_each_other (filter (\<lambda>(issue, files). \<not> length files > 300) aggregated)
     = correlate_files_with_each_other aggregated
   \<and> (correlate_files_with_each_other aggregated = Inr (kf, es, ws) \<longrightarrow>
        (\<forall>f \<in> set kf. \<exists>files \<in> set (retained aggregated). f \<in> set files)
      \<and> (\<forall>(i, ns) \<in> set es. i < length kf \<and>
           (\<forall>j \<in> set ns. j < length kf \<and>
              (\<exists>files \<in> set (retained aggregated). kf ! i \<in> set files \<and> kf ! j \<in> set files))))"
proof (intro conjI impI)
  show "correlate_files_with_each_other (filter (\<lambda>(issue, files). \<not> length files > 300) aggregated)
     = correlate_files_with_each_other aggregated"
    by (rule correlate_filter)
next
  assume run: "correlate_files_with_each_other aggregated = Inr (kf, es, ws)"
  from correlate_props(1) [OF run] have "set kf = set (concat (retained aggregated))"
    by (simp add: set_first_seen)
  then show "\<forall>f \<in> set kf. \<exists>files \<in> set (retained aggregated). f \<in> set files"
    by auto
  show "\<forall>(i, ns) \<in> set es. i < length kf \<and>
           (\<forall>j \<in> set ns. j < length kf \<and>
              (\<exists>files \<in> set (retained aggregated). kf ! i \<in> set files \<and> kf ! j \<in> set files))"
    by (rule correlate_props(4) [OF run])
qed

text \<open>
  Witness for C4: an issue with the 301 files \<open>f\<close>, \<open>fx\<close>, \<open>fxx\<close>, ... before the two issues
  of Scenario A.
\<close>

theorem over_threshold_issues_ignored_witness:
  "correlate_files_with_each_other
     [(''BIG'', map (\<lambda>n. CHR ''f'' # replicate n CHR ''x'') [0..<301]), (''TEST-1111'', [''A'', ''B'', ''C'']), (''TEST-1112'', [''A'', ''D''])]
     = Inr ([''A'', ''B'', ''C'', ''D''],
        [(0, [0, 1, 2, 3]), (1, [0, 1, 2]), (2, [0, 1, 2]), (3, [0, 3])],
        [(0, [2, 1, 1, 1]), (1, [1, 1, 1]), (2, [1, 1, 1]), (3, [1, 1])])
   \<and> correlate_files_with_each_other
       (filter (\<lambda>(issue, files). \<not> length files > 300)
         [(''BIG'', map (\<lambda>n. CHR ''f'' # replicate n CHR ''x'') [0..<301]), (''TEST-1111'', [''A'', ''B'', ''C'']), (''TEST-1112'', [''A'', ''D''])])
     = Inr ([''A'', ''B'', ''C'', ''D''],
        [(0, [0, 1, 2, 3]), (1, [0, 1, 2]), (2, [0, 1, 2]), (3, [0, 3])],
        [(0, [2, 1, 1, 1]), (1, [1, 1, 1]), (2, [1, 1, 1]), (3, [1, 1])])
   \<and> (\<exists>files. files \<in> set (retained
           [(''BIG'', map (\<lambda>n. CHR ''f'' # replicate n CHR ''x'') [0..<301]), (''TEST-1111'', [''A'', ''B'', ''C'']), (''TEST-1112'', [''A'', ''D''])])
          \<and> ''A'' \<in> set files \<and> ''D'' \<in> set files)"
proof -
  let ?ex = "[(''BIG'', map (\<lambda>n. CHR ''f'' # replicate n CHR ''x'') [0..<301]), (''TEST-1111'', [''A'', ''B'', ''C'']),
              (''TEST-1112'', [''A'', ''D''])]"
  have run: "correlate_files_with_each_other ?ex
     = Inr ([''A'', ''B'', ''C'', ''D''],
        [(0, [0, 1, 2, 3]), (1, [0, 1, 2]), (2, [0, 1, 2]), (3, [0, 3])],
        [(0, [2, 1, 1, 1]), (1, [1, 1, 1]), (2, [1, 1, 1]), (3, [1, 1])])"
    by (simp add: graph_defs)
  from over_threshold_issues_ignored [of ?ex "[''A'', ''B'', ''C'', ''D'']"
      "[(0, [0, 1, 2, 3]), (1, [0, 1, 2]), (2, [0, 1, 2]), (3, [0, 3])]"
      "[(0, [2, 1, 1, 1]), (1, [1, 1, 1]), (2, [1, 1, 1]), (3, [1, 1])]"] run
  have same: "correlate_files_with_each_other (filter (\<lambda>(issue, files). \<not> length files > 300) ?ex)
      = correlate_files_with_each_other ?ex"
    and edges: "\<forall>(i, ns) \<in> set [(0, [0, 1, 2, 3]), (1, [0, 1, 2]), (2, [0, 1, 2]), (3, [0::nat, 3])].
        i < length [''A'', ''B'', ''C'', ''D''] \<and>
        (\<forall>j \<in> set ns. j < length [''A'', ''B'', ''C'', ''D''] \<and>
           (\<exists>files \<in> set (retained ?ex).
              [''A'', ''B'', ''C'', ''D''] ! i \<in> set files \<and> [''A'', ''B'', ''C'', ''D''] ! j \<in> set files))"
    by blast+
  from edges have "\<exists>files \<in> set (retained ?ex).
      [''A'', ''B'', ''C'', ''D''] ! 0 \<in> set files \<and> [''A'', ''B'', ''C'', ''D''] ! 3 \<in> set files"
    by simp
  then have "\<exists>files. files \<in> set (retained ?ex) \<and> ''A'' \<in> set files \<and> ''D'' \<in> set files"
    by (simp add: Bex_def)
  with run same show ?thesis by simp
qed

text \<open>
  Claim C9: graph construction is a function of the sequence of file tuples alone: two
  inputs with the same values in the same order give the same result. When the
  function returns, the node list is the sequence of the files of the retained issues
  in the order of their first occurrences, without repetition, so the id of a file is
  its position in first-seen order; and the node ids of the edge table and of the
  weight table are \<open>0, \<dots>, n - 1\<close>, ascending.
\<close>

theorem graph_construction_deterministic:
  "(map snd aggregated = map snd aggregated' \<longrightarrow>
      correlate_files_with_each_other aggregated = correlate_files_with_each_other aggregated')
   \<and> (correlate_files_with_each_other aggregated = Inr (kf, es, ws) \<longrightarrow>
        kf = first_seen (concat (retained aggregated)) \<and> distinct kf
      \<and> map fst es = [0..<length kf] \<and> map fst ws = [0..<length kf])"
proof (intro conjI impI)
  assume "map snd aggregated = map snd aggregated'"
  then show "correlate_files_with_each_other aggregated = correlate_files_with_each_other aggregated'"
    by (simp add: correlate_files_with_each_other_def)
next
  assume run: "correlate_files_with_each_other aggregated = Inr (kf, es, ws)"
  show "kf = first_seen (concat (retained aggregated))"
    by (rule correlate_props(1) [OF run])
  then show "distinct kf" by (simp add: distinct_first_seen)
  show "map fst es = [0..<length kf]" by (rule correlate_props(2) [OF run])
  show "map fst ws = [0..<length kf]" by (rule correlate_props(3) [OF run])
qed

text \<open>Witness for C9: two dictionaries with the same values under different keys.\<close>

theorem graph_construction_deterministic_witness:
  "correlate_files_with_each_other [(''X'', [''B'', ''A'']), (''Y'', [''C'', ''B''])]
     = correlate_files_with_each_other [(''TEST-1'', [''B'', ''A'']), (''TEST-2'', [''C'', ''B''])]
   \<and> (\<exists>kf es ws.
        correlate_files_with_each_other [(''X'', [''B'', ''A'']), (''Y'', [''C'', ''B''])]
          = Inr (kf, es, ws)
        \<and> kf = [''B'', ''A'', ''C''] \<and> map fst es = [0, 1, 2] \<and> map fst ws = [0, 1, 2])"
proof -
  let ?a = "[(''X'', [''B'', ''A'']), (''Y'', [''C'', ''B''])]"
  let ?b = "[(''TEST-1'', [''B'', ''A'']), (''TEST-2'', [''C'', ''B''])]"
  have vals: "map snd ?a = map snd ?b" by simp
  obtain kf es ws where run: "correlate_files_with_each_other ?a = Inr (kf, es, ws)"
    by (simp add: graph_defs)
  from graph_construction_deterministic [of ?a ?b kf es ws] vals run
  have eq: "correlate_files_with_each_other ?a = correlate_files_with_each_other ?b"
    and kf: "kf = first_seen (concat (retained ?a))"
    and ks: "map fst es = [0..<length kf]" "map fst ws = [0..<length kf]"
    by blast+
  from kf have kf': "kf = [''B'', ''A'', ''C'']"
    by (simp add: first_seen_def retained_def add_new_def)
  with ks have m: "map fst es = [0, 1, 2]" "map fst ws = [0, 1, 2]"
    by (simp_all add: upt_rec)
  have "correlate_files_with_each_other ?a = Inr (kf, es, ws)
        \<and> kf = [''B'', ''A'', ''C''] \<and> map fst es = [0, 1, 2] \<and> map fst ws = [0, 1, 2]"
    using run kf' m by (intro conjI)
  then have "\<exists>kf es ws. correlate_files_with_each_other ?a = Inr (kf, es, ws)
        \<and> kf = [''B'', ''A'', ''C''] \<and> map fst es = [0, 1, 2] \<and> map fst ws = [0, 1, 2]"
    by (intro exI)
  with eq show ?thesis by (intro conjI)
qed

end
